theory Spec2Isabelle
  imports Main "HOL-Library.Word"
begin

section \<open>Status codes and the exception raised on failure\<close>

text \<open>
  \<^verbatim>\<open>HRESULT\<close> is a signed 32-bit integer; \<^verbatim>\<open>FAILED(hr)\<close> of the platform
  headers is \<^verbatim>\<open>hr < 0\<close>.
\<close>

type_synonym HRESULT = "32 word"

definition FAILED :: "HRESULT \<Rightarrow> bool" where
  "FAILED hr = (sint hr < 0)"

definition SUCCEEDED :: "HRESULT \<Rightarrow> bool" where
  "SUCCEEDED hr = (0 \<le> sint hr)"

text \<open>
  \<^verbatim>\<open>std::format("HRESULT of 0x{:08X}", static_cast<UINT>(hr))\<close>: the unsigned value in
  upper-case hexadecimal, padded with zeros to eight digits. A 32-bit value never needs
  more than eight.
\<close>

definition hex_digit :: "nat \<Rightarrow> char" where
  "hex_digit d = ''0123456789ABCDEF'' ! d"

definition hex8 :: "nat \<Rightarrow> string" where
  "hex8 n = map (\<lambda>k. hex_digit (n div 16 ^ k mod 16)) [7, 6, 5, 4, 3, 2, 1, 0]"

definition HrToString :: "HRESULT \<Rightarrow> string" where
  "HrToString hr = ''HRESULT of 0x'' @ hex8 (unat hr)"

text \<open>
  The two exception classes the program throws: \<^verbatim>\<open>HrException\<close> with its status
  \<^verbatim>\<open>Error()\<close> and its message \<^verbatim>\<open>what()\<close>, and \<^verbatim>\<open>std::system_error\<close> with the
  value of \<^verbatim>\<open>GetLastError()\<close>.
\<close>

datatype exn =
    HrException (Error: HRESULT) (what: string)
  | system_error (code: "32 word")

definition HrException_ctor :: "HRESULT \<Rightarrow> exn" where
  "HrException_ctor hr = HrException hr (HrToString hr)"

text \<open>Reading the eight digits of a message back, to say what "contains the code" means.\<close>

definition digit_value :: "char \<Rightarrow> nat" where
  "digit_value c = (let n = of_char c :: nat in if n < 58 then n - 48 else n - 55)"

definition read_hex :: "string \<Rightarrow> nat" where
  "read_hex cs = foldl (\<lambda>acc c. 16 * acc + digit_value c) 0 cs"

section \<open>The calls the program makes, and the state they act on\<close>

datatype resource_state = PRESENT | RENDER_TARGET

datatype handle =
    h_fence | h_commandList | h_commandAllocator | h_renderTarget nat | h_rtvHeap
  | h_swapChain | h_commandQueue | h_device | h_factory | h_debugController | h_window
  | h_localSwapChain

datatype call =
    RegisterClassExW | AdjustWindowRect | CreateWindowExW
  | D3D12GetDebugInterface | EnableDebugLayer
  | CreateDXGIFactory2 | D3D12CreateDevice | CreateCommandQueue
  | CreateSwapChainForHwnd | MakeWindowAssociation | SwapChainAs
  | GetCurrentBackBufferIndex nat
  | CreateDescriptorHeap | GetDescriptorHandleIncrementSize
  | GetBuffer nat | CreateRenderTargetView nat
  | CreateCommandAllocator | CreateCommandList | ListClose
  | CreateFence nat | CreateEventW | ShowWindow
  | AllocatorReset | ListReset
  | ResourceBarrier nat resource_state resource_state
  | ClearRenderTargetView nat
  | ExecuteCommandLists nat
  | SwapChainPresent
  | Signal nat
  | GetCompletedValue nat
  | SetEventOnCompletion nat
  | WaitForSingleObject
  | PostQuitMessage | SetWindowLongPtr | DefWindowProcW "32 word"
  | Release handle | DestroyWindow

text \<open>What the queue still has to execute: the work of a submitted list, or a fence signal.\<close>

datatype gpu_item = Work nat | SignalFence nat

text \<open>
  The members of \<^verbatim>\<open>App\<close> that hold data (\<^verbatim>\<open>m_frameIndex\<close>, \<^verbatim>\<open>m_fenceValue\<close>),
  the local \<^verbatim>\<open>fence\<close> of \<^verbatim>\<open>Render\<close>, and the objects behind the COM handles:
  whether the command list is closed, the work the queue has not executed yet, the value the
  fence has reached, and the calls made so far, in order.

  \<^verbatim>\<open>m_fenceValue\<close> is a \<^verbatim>\<open>UINT64\<close> that grows by one per presented frame; it is
  modelled as a natural number, which agrees with the code on every run of fewer than
  \<open>2 ^ 64\<close> frames.
\<close>

record state =
  m_frameIndex :: nat
  m_fenceValue :: nat
  fence :: nat
  list_closed :: bool
  gpu_queue :: "gpu_item list"
  fence_completed :: nat
  trace :: "call list"

datatype outcome = Returns state | Throws exn state | Blocks state

definition FrameCount :: nat where
  "FrameCount = 2"

definition log :: "call \<Rightarrow> state \<Rightarrow> state" where
  "log c s = s\<lparr>trace := trace s @ [c]\<rparr>"

definition ThrowIfFailed :: "HRESULT \<Rightarrow> state \<Rightarrow> outcome" where
  "ThrowIfFailed hr s = (if FAILED hr then Throws (HrException_ctor hr) s else Returns s)"

text \<open>A statement sequence: the first statement that throws or blocks ends it.\<close>

fun exec :: "(state \<Rightarrow> outcome) list \<Rightarrow> state \<Rightarrow> outcome" where
  "exec [] s = Returns s"
| "exec (f # fs) s = (case f s of Returns s' \<Rightarrow> exec fs s' | other \<Rightarrow> other)"

text \<open>\<^verbatim>\<open>ThrowIfFailed(call(...))\<close>: the call is made, then its status is checked.\<close>

definition checked :: "call \<Rightarrow> HRESULT \<Rightarrow> state \<Rightarrow> outcome" where
  "checked c hr s = ThrowIfFailed hr (log c s)"

text \<open>A Win32 call whose failure is reported through \<^verbatim>\<open>GetLastError()\<close>.\<close>

definition win32 :: "call \<Rightarrow> bool \<Rightarrow> 32 word \<Rightarrow> state \<Rightarrow> outcome" where
  "win32 c ok err s = (if ok then Returns (log c s) else Throws (system_error err) (log c s))"

definition plain :: "call \<Rightarrow> state \<Rightarrow> outcome" where
  "plain c s = Returns (log c s)"

section \<open>The asynchronous queue and the fence\<close>

text \<open>
  The queue executes what was submitted in order. Executing a fence signal sets the value
  the fence has reached.
\<close>

fun complete :: "gpu_item \<Rightarrow> nat \<Rightarrow> nat" where
  "complete (Work i) c = c"
| "complete (SignalFence v) c = v"

fun gpu_run :: "nat \<Rightarrow> state \<Rightarrow> state" where
  "gpu_run 0 s = s"
| "gpu_run (Suc k) s =
     (case gpu_queue s of
        [] \<Rightarrow> s
      | x # q \<Rightarrow> gpu_run k (s\<lparr>gpu_queue := q, fence_completed := complete x (fence_completed s)\<rparr>))"

text \<open>
  \<^verbatim>\<open>SetEventOnCompletion(v, event)\<close> followed by \<^verbatim>\<open>WaitForSingleObject(event, INFINITE)\<close>:
  the thread resumes once the fence has reached \<open>v\<close>. If the queue runs empty before that,
  the wait never ends (\<open>None\<close>).
\<close>

fun await :: "nat \<Rightarrow> gpu_item list \<Rightarrow> nat \<Rightarrow> (gpu_item list \<times> nat) option" where
  "await v [] c = (if v \<le> c then Some ([], c) else None)"
| "await v (x # q) c = (if v \<le> c then Some (x # q, c) else await v q (complete x c))"

section \<open>Construction of \<^verbatim>\<open>App\<close>\<close>

text \<open>
  What the platform answers to each call of the constructor: the statuses, the results of the
  Win32 calls with the value of \<^verbatim>\<open>GetLastError()\<close>, whether the build defines
  \<^verbatim>\<open>_DEBUG\<close>, and the index the swap chain reports.
\<close>

record setup_env =
  RegisterClassExW_ok :: bool
  AdjustWindowRect_ok :: bool
  CreateWindowExW_ok :: bool
  CreateEventW_ok :: bool
  last_error :: "32 word"
  debug_build :: bool
  hr_D3D12GetDebugInterface :: HRESULT
  hr_CreateDXGIFactory2 :: HRESULT
  hr_D3D12CreateDevice :: HRESULT
  hr_CreateCommandQueue :: HRESULT
  hr_CreateSwapChainForHwnd :: HRESULT
  hr_MakeWindowAssociation :: HRESULT
  hr_As :: HRESULT
  hr_CreateDescriptorHeap :: HRESULT
  hr_GetBuffer :: "nat \<Rightarrow> HRESULT"
  hr_CreateCommandAllocator :: HRESULT
  hr_CreateCommandList :: HRESULT
  hr_CreateFence :: HRESULT
  first_index :: nat

text \<open>
  The messages the platform sends to the window procedure while \<^verbatim>\<open>CreateWindowExW\<close> and
  \<^verbatim>\<open>ShowWindow\<close> run are left out: the procedure handles only \<^verbatim>\<open>WM_CREATE\<close> among them,
  by storing the \<^verbatim>\<open>App\<close> pointer in the window.
\<close>

text \<open>
  The local \<^verbatim>\<open>ComPtr<IDXGISwapChain1> swapChain\<close> of line 118 is destroyed when the
  constructor returns: its pointer is released then, while \<^verbatim>\<open>m_swapChain\<close> keeps the swap
  chain. An exception ends the process through \<^verbatim>\<open>wWinMain\<close> uncaught; whether the stack is
  unwound before that is left to the implementation, and no destructor call is modelled on
  that path.
\<close>

text \<open>The state before the constructor body runs: \<^verbatim>\<open>UINT64 m_fenceValue = 0\<close>.\<close>

definition blank :: state where
  "blank = \<lparr>m_frameIndex = 0, m_fenceValue = 0, fence = 0, list_closed = False,
            gpu_queue = [], fence_completed = 0, trace = []\<rparr>"

definition debug_layer :: "setup_env \<Rightarrow> state \<Rightarrow> outcome" where
  "debug_layer e s =
     (if debug_build e then
        (if SUCCEEDED (hr_D3D12GetDebugInterface e)
         then Returns (log EnableDebugLayer (log D3D12GetDebugInterface s))
         else Returns (log D3D12GetDebugInterface s))
      else Returns s)"

definition read_index :: "nat \<Rightarrow> state \<Rightarrow> outcome" where
  "read_index i s = Returns ((log (GetCurrentBackBufferIndex i) s)\<lparr>m_frameIndex := i\<rparr>)"

definition render_target :: "setup_env \<Rightarrow> nat \<Rightarrow> state \<Rightarrow> outcome" where
  "render_target e frameIndex =
     exec [checked (GetBuffer frameIndex) (hr_GetBuffer e frameIndex),
           plain (CreateRenderTargetView frameIndex)]"

definition create_command_list :: "HRESULT \<Rightarrow> state \<Rightarrow> outcome" where
  "create_command_list hr s =
     (case checked CreateCommandList hr s of
        Returns s' \<Rightarrow> Returns (s'\<lparr>list_closed := False\<rparr>)
      | other \<Rightarrow> other)"

text \<open>Line 149: the status of this \<^verbatim>\<open>Close\<close> is not looked at.\<close>

definition close_unchecked :: "state \<Rightarrow> outcome" where
  "close_unchecked s = Returns ((log ListClose s)\<lparr>list_closed := True\<rparr>)"

definition create_fence :: "HRESULT \<Rightarrow> state \<Rightarrow> outcome" where
  "create_fence hr s =
     (case checked (CreateFence 0) hr s of
        Returns s' \<Rightarrow> Returns (s'\<lparr>fence_completed := 0\<rparr>)
      | other \<Rightarrow> other)"

definition App_steps :: "setup_env \<Rightarrow> (state \<Rightarrow> outcome) list" where
  "App_steps e =
     [win32 RegisterClassExW (RegisterClassExW_ok e) (last_error e),
      win32 AdjustWindowRect (AdjustWindowRect_ok e) (last_error e),
      win32 CreateWindowExW (CreateWindowExW_ok e) (last_error e),
      debug_layer e,
      checked CreateDXGIFactory2 (hr_CreateDXGIFactory2 e),
      checked D3D12CreateDevice (hr_D3D12CreateDevice e),
      checked CreateCommandQueue (hr_CreateCommandQueue e),
      checked CreateSwapChainForHwnd (hr_CreateSwapChainForHwnd e),
      checked MakeWindowAssociation (hr_MakeWindowAssociation e),
      checked SwapChainAs (hr_As e),
      read_index (first_index e),
      checked CreateDescriptorHeap (hr_CreateDescriptorHeap e),
      plain GetDescriptorHandleIncrementSize]
     @ map (render_target e) [0..<FrameCount]
     @ [checked CreateCommandAllocator (hr_CreateCommandAllocator e),
        create_command_list (hr_CreateCommandList e),
        close_unchecked,
        create_fence (hr_CreateFence e),
        win32 CreateEventW (CreateEventW_ok e) (last_error e),
        plain ShowWindow,
        plain (Release h_localSwapChain)]"

definition App :: "setup_env \<Rightarrow> outcome" where
  "App e = exec (App_steps e) blank"

section \<open>\<^verbatim>\<open>App::Render\<close>\<close>

text \<open>
  What the platform answers during one call of \<^verbatim>\<open>Render\<close>: the statuses, the index the
  swap chain reports after the present, and how many items the queue executes on its own
  before each statement (\<open>gpu_steps e k\<close> before statement \<open>k\<close>, counted from 0): the queue
  runs asynchronously, so any numbers are possible.
\<close>

record frame_env =
  hr_AllocatorReset :: HRESULT
  hr_ListReset :: HRESULT
  hr_Close :: HRESULT
  hr_Present :: HRESULT
  hr_Signal :: HRESULT
  hr_SetEventOnCompletion :: HRESULT
  gpu_steps :: "nat \<Rightarrow> nat"
  next_index :: nat

definition reset_list :: "HRESULT \<Rightarrow> state \<Rightarrow> outcome" where
  "reset_list hr s =
     (case checked ListReset hr s of
        Returns s' \<Rightarrow> Returns (s'\<lparr>list_closed := False\<rparr>)
      | other \<Rightarrow> other)"

definition barrier :: "resource_state \<Rightarrow> resource_state \<Rightarrow> state \<Rightarrow> outcome" where
  "barrier stateBefore stateAfter s =
     plain (ResourceBarrier (m_frameIndex s) stateBefore stateAfter) s"

definition clear :: "state \<Rightarrow> outcome" where
  "clear s = plain (ClearRenderTargetView (m_frameIndex s)) s"

definition close_list :: "HRESULT \<Rightarrow> state \<Rightarrow> outcome" where
  "close_list hr s =
     (case checked ListClose hr s of
        Returns s' \<Rightarrow> Returns (s'\<lparr>list_closed := True\<rparr>)
      | other \<Rightarrow> other)"

text \<open>The submitted list holds the commands recorded against buffer \<^verbatim>\<open>m_frameIndex\<close>.\<close>

definition execute :: "state \<Rightarrow> outcome" where
  "execute s =
     Returns ((log (ExecuteCommandLists (m_frameIndex s)) s)
                \<lparr>gpu_queue := gpu_queue s @ [Work (m_frameIndex s)]\<rparr>)"

definition take_fence :: "state \<Rightarrow> outcome" where
  "take_fence s = Returns (s\<lparr>fence := m_fenceValue s\<rparr>)"

definition signal :: "HRESULT \<Rightarrow> state \<Rightarrow> outcome" where
  "signal hr s =
     (case checked (Signal (fence s)) hr s of
        Returns s' \<Rightarrow> Returns (s'\<lparr>gpu_queue := gpu_queue s' @ [SignalFence (fence s')]\<rparr>)
      | other \<Rightarrow> other)"

definition increment :: "state \<Rightarrow> outcome" where
  "increment s = Returns (s\<lparr>m_fenceValue := m_fenceValue s + 1\<rparr>)"

definition block_on_event :: "state \<Rightarrow> outcome" where
  "block_on_event s =
     (case await (fence s) (gpu_queue s) (fence_completed s) of
        None \<Rightarrow> Blocks (log WaitForSingleObject s)
      | Some (q, c) \<Rightarrow>
          Returns ((log WaitForSingleObject s)\<lparr>gpu_queue := q, fence_completed := c\<rparr>))"

definition wait_if_needed :: "HRESULT \<Rightarrow> state \<Rightarrow> outcome" where
  "wait_if_needed hr s =
     (if fence_completed s < fence s
      then exec [checked (SetEventOnCompletion (fence s)) hr, block_on_event]
             (log (GetCompletedValue (fence_completed s)) s)
      else Returns (log (GetCompletedValue (fence_completed s)) s))"

text \<open>
  The statements of \<^verbatim>\<open>Render\<close>, numbered from 0, with their lines in the source:
  0 (line 162), 1 (163), 2 (172 to 177), 3 (180), 4 (183 to 188), 5 (191), 6 (192, 193),
  7 (195), 8 (197), 9 (198), 10 (199), 11 (201 to 204), 12 (206).
\<close>

definition Render_steps :: "frame_env \<Rightarrow> (state \<Rightarrow> outcome) list" where
  "Render_steps e =
     [checked AllocatorReset (hr_AllocatorReset e),
      reset_list (hr_ListReset e),
      barrier PRESENT RENDER_TARGET,
      clear,
      barrier RENDER_TARGET PRESENT,
      close_list (hr_Close e),
      execute,
      checked SwapChainPresent (hr_Present e),
      take_fence,
      signal (hr_Signal e),
      increment,
      wait_if_needed (hr_SetEventOnCompletion e),
      read_index (next_index e)]"

text \<open>
  The statements in order, the queue making \<open>g k\<close> steps of its own before statement \<open>k\<close>.
\<close>

fun run :: "(nat \<Rightarrow> nat) \<Rightarrow> nat \<Rightarrow> (state \<Rightarrow> outcome) list \<Rightarrow> state \<Rightarrow> outcome" where
  "run g k [] s = Returns s"
| "run g k (f # fs) s =
     (case f (gpu_run (g k) s) of Returns s' \<Rightarrow> run g (Suc k) fs s' | other \<Rightarrow> other)"

definition Render :: "frame_env \<Rightarrow> state \<Rightarrow> outcome" where
  "Render e s = run (gpu_steps e) 0 (Render_steps e) s"

text \<open>Consecutive calls of \<^verbatim>\<open>Render\<close>, one per redraw request.\<close>

fun ticks :: "frame_env list \<Rightarrow> state \<Rightarrow> outcome" where
  "ticks [] s = Returns s"
| "ticks (e # es) s = (case Render e s of Returns s' \<Rightarrow> ticks es s' | other \<Rightarrow> other)"

text \<open>The state in the middle of a call: after its first \<open>k\<close> statements.\<close>

definition Render_upto :: "nat \<Rightarrow> frame_env \<Rightarrow> state \<Rightarrow> outcome" where
  "Render_upto k e s = run (gpu_steps e) 0 (take k (Render_steps e)) s"

section \<open>The window procedure and the entry point\<close>

text \<open>Message numbers of the platform headers.\<close>

definition WM_CREATE :: "32 word" where "WM_CREATE = 0x0001"
definition WM_SIZE :: "32 word" where "WM_SIZE = 0x0005"
definition WM_PAINT :: "32 word" where "WM_PAINT = 0x000F"
definition WM_CLOSE :: "32 word" where "WM_CLOSE = 0x0010"
definition WM_QUIT :: "32 word" where "WM_QUIT = 0x0012"

text \<open>
  A retrieved message: its number, whether it is addressed to the window (a message posted
  to the thread, as \<^verbatim>\<open>WM_QUIT\<close> is, reaches no window procedure), its parameters, and what
  the platform answers if handling it renders a frame.
\<close>

record MSG =
  message :: "32 word"
  to_window :: bool
  wParam :: "64 word"
  lParam :: "64 word"
  answers :: frame_env

definition WindowProc :: "frame_env \<Rightarrow> 32 word \<Rightarrow> 64 word \<Rightarrow> 64 word \<Rightarrow> state \<Rightarrow> outcome" where
  "WindowProc e uMsg wP lP s =
     (if uMsg = WM_CLOSE then plain PostQuitMessage s
      else if uMsg = WM_CREATE then plain SetWindowLongPtr s
      else if uMsg = WM_PAINT then Render e s
      else plain (DefWindowProcW uMsg) s)"

definition DispatchMessageW :: "MSG \<Rightarrow> state \<Rightarrow> outcome" where
  "DispatchMessageW m s =
     (if to_window m then WindowProc (answers m) (message m) (wParam m) (lParam m) s
      else Returns s)"

text \<open>
  The loop of \<^verbatim>\<open>wWinMain\<close> over the messages \<^verbatim>\<open>PeekMessageW\<close> retrieves: each is
  dispatched, and the loop ends after \<^verbatim>\<open>WM_QUIT\<close>. When no message is left and none was
  \<^verbatim>\<open>WM_QUIT\<close>, the loop keeps polling.
\<close>

fun pump :: "MSG list \<Rightarrow> state \<Rightarrow> outcome" where
  "pump [] s = Blocks s"
| "pump (m # ms) s =
     (case DispatchMessageW m s of
        Returns s' \<Rightarrow> (if message m = WM_QUIT then Returns s' else pump ms s')
      | other \<Rightarrow> other)"

text \<open>
  The destructor of \<^verbatim>\<open>App\<close>: the members are destroyed in the reverse order of their
  declaration; a \<^verbatim>\<open>ComPtr\<close> releases its object, the window's deleter destroys the window.
  The debug controller is held only when the debug layer was enabled.
\<close>

definition App_dtor :: "state \<Rightarrow> state" where
  "App_dtor s =
     s\<lparr>trace := trace s
          @ [Release h_fence, Release h_commandList, Release h_commandAllocator]
          @ map (\<lambda>i. Release (h_renderTarget i)) (rev [0..<FrameCount])
          @ [Release h_rtvHeap, Release h_swapChain, Release h_commandQueue, Release h_device,
             Release h_factory]
          @ (if EnableDebugLayer \<in> set (trace s) then [Release h_debugController] else [])
          @ [DestroyWindow]\<rparr>"

text \<open>
  How the process ends: \<^verbatim>\<open>wWinMain\<close> returns a value, an exception leaves it uncaught
  and the process is terminated, or it never returns.
\<close>

datatype ending = Exit int state | Terminate exn state | Never state

definition wWinMain :: "setup_env \<Rightarrow> MSG list \<Rightarrow> ending" where
  "wWinMain e ms =
     (case App e of
        Throws x s \<Rightarrow> Terminate x s
      | Blocks s \<Rightarrow> Never s
      | Returns app \<Rightarrow>
          (case pump ms app of
             Throws x s \<Rightarrow> Terminate x s
           | Blocks s \<Rightarrow> Never s
           | Returns s \<Rightarrow> Exit 0 (App_dtor s)))"

section \<open>Vocabulary of the properties\<close>

text \<open>
  The setup calls whose status the constructor hands to \<^verbatim>\<open>ThrowIfFailed\<close>, in the order
  of the source, each with the status the platform returns.
\<close>

definition setup_statuses :: "setup_env \<Rightarrow> (call \<times> HRESULT) list" where
  "setup_statuses e =
     [(CreateDXGIFactory2, hr_CreateDXGIFactory2 e),
      (D3D12CreateDevice, hr_D3D12CreateDevice e),
      (CreateCommandQueue, hr_CreateCommandQueue e),
      (CreateSwapChainForHwnd, hr_CreateSwapChainForHwnd e),
      (MakeWindowAssociation, hr_MakeWindowAssociation e),
      (SwapChainAs, hr_As e),
      (CreateDescriptorHeap, hr_CreateDescriptorHeap e),
      (GetBuffer 0, hr_GetBuffer e 0),
      (GetBuffer 1, hr_GetBuffer e 1),
      (CreateCommandAllocator, hr_CreateCommandAllocator e),
      (CreateCommandList, hr_CreateCommandList e),
      (CreateFence 0, hr_CreateFence e)]"

text \<open>The elements of a list that come after the first occurrence of \<open>c\<close>.\<close>

definition after :: "'a \<Rightarrow> 'a list \<Rightarrow> 'a list" where
  "after c xs = tl (dropWhile (\<lambda>x. x \<noteq> c) xs)"

text \<open>The calls of one complete frame on buffer \<open>i\<close> with fence value \<open>v\<close>, when the
  fence is read as \<open>c\<close> and the swap chain then reports buffer \<open>n\<close>: the calls up to the
  signal, the handshake, and the index query.\<close>

definition first_calls :: "nat \<Rightarrow> nat \<Rightarrow> call list" where
  "first_calls i v =
     [AllocatorReset, ListReset,
      ResourceBarrier i PRESENT RENDER_TARGET,
      ClearRenderTargetView i,
      ResourceBarrier i RENDER_TARGET PRESENT,
      ListClose,
      ExecuteCommandLists i,
      SwapChainPresent,
      Signal v]"

definition handshake :: "nat \<Rightarrow> nat \<Rightarrow> call list" where
  "handshake v c =
     GetCompletedValue c # (if c < v then [SetEventOnCompletion v, WaitForSingleObject] else [])"

definition frame_calls :: "nat \<Rightarrow> nat \<Rightarrow> nat \<Rightarrow> nat \<Rightarrow> call list" where
  "frame_calls i v c n = first_calls i v @ handshake v c @ [GetCurrentBackBufferIndex n]"

text \<open>Whether an outcome is a normal return.\<close>

fun returns :: "outcome \<Rightarrow> bool" where
  "returns (Returns s) = True"
| "returns (Throws x s) = False"
| "returns (Blocks s) = False"

text \<open>The state an outcome ends in.\<close>

fun final :: "outcome \<Rightarrow> state" where
  "final (Returns s) = s"
| "final (Throws x s) = s"
| "final (Blocks s) = s"

text \<open>Readings of a sequence of calls: the fence values signalled, the buffers of the
  submitted lists, the indices the swap chain reported, the values waited for.\<close>

definition signals :: "call list \<Rightarrow> nat list" where
  "signals cs = concat (map (\<lambda>c. case c of Signal v \<Rightarrow> [v] | _ \<Rightarrow> []) cs)"

definition executes :: "call list \<Rightarrow> nat list" where
  "executes cs = concat (map (\<lambda>c. case c of ExecuteCommandLists i \<Rightarrow> [i] | _ \<Rightarrow> []) cs)"

definition reported :: "call list \<Rightarrow> nat list" where
  "reported cs = concat (map (\<lambda>c. case c of GetCurrentBackBufferIndex i \<Rightarrow> [i] | _ \<Rightarrow> []) cs)"

definition waits :: "call list \<Rightarrow> nat list" where
  "waits cs = concat (map (\<lambda>c. case c of SetEventOnCompletion v \<Rightarrow> [v] | _ \<Rightarrow> []) cs)"

definition polls :: "call list \<Rightarrow> nat list" where
  "polls cs = concat (map (\<lambda>c. case c of GetCompletedValue v \<Rightarrow> [v] | _ \<Rightarrow> []) cs)"

text \<open>The fence signals the queue has not executed yet.\<close>

definition pending :: "gpu_item list \<Rightarrow> nat list" where
  "pending q = concat (map (\<lambda>x. case x of SignalFence v \<Rightarrow> [v] | _ \<Rightarrow> []) q)"

text \<open>
  How many of the calls up to the signal have been made after \<open>k\<close> statements of
  \<^verbatim>\<open>Render\<close> (the statements that copy and increment the counter make no call).
\<close>

definition made :: "nat \<Rightarrow> nat" where
  "made k = (if k \<le> 8 then k else if k = 9 then 8 else 9)"

text \<open>
  The state \<open>t\<close> after \<open>k\<close> statements of \<^verbatim>\<open>Render\<close> started in \<open>s\<close>: the members, the
  state of the command list, and the calls made.
\<close>

definition shape :: "frame_env \<Rightarrow> state \<Rightarrow> nat \<Rightarrow> state \<Rightarrow> bool" where
  "shape e s k t \<longleftrightarrow>
     m_frameIndex t = (if k < 13 then m_frameIndex s else next_index e)
   \<and> m_fenceValue t = (if k < 11 then m_fenceValue s else m_fenceValue s + 1)
   \<and> (9 \<le> k \<longrightarrow> fence t = m_fenceValue s)
   \<and> list_closed t = (if k < 2 then list_closed s else 6 \<le> k)
   \<and> (k \<le> 11 \<longrightarrow>
        trace t = trace s @ take (made k) (first_calls (m_frameIndex s) (m_fenceValue s)))
   \<and> (k = 12 \<longrightarrow>
        (\<exists>c. trace t = trace s @ first_calls (m_frameIndex s) (m_fenceValue s)
                 @ handshake (m_fenceValue s) c))
   \<and> (13 \<le> k \<longrightarrow>
        (\<exists>c. trace t = trace s
                 @ frame_calls (m_frameIndex s) (m_fenceValue s) c (next_index e)))"

text \<open>
  The fence protocol. \<open>protocol n d l t\<close>: \<open>n\<close> fence values have been handed to the
  queue, and they are \<open>0, 1, \<dots>\<close> in this order; \<open>l\<close> lists have been submitted; the value
  the fence has reached and the signals still queued are in ascending order; all issued
  values but the last \<open>d - 1\<close> are reached.
\<close>

definition protocol :: "nat \<Rightarrow> nat \<Rightarrow> nat \<Rightarrow> state \<Rightarrow> bool" where
  "protocol n d l t \<longleftrightarrow>
     sorted (fence_completed t # pending (gpu_queue t))
   \<and> (\<forall>v \<in> set (pending (gpu_queue t)). v < n)
   \<and> fence_completed t \<le> n - 1
   \<and> n \<le> fence_completed t + d
   \<and> signals (trace t) = [0..<n]
   \<and> length (executes (trace t)) = l"

text \<open>
  After \<open>k\<close> statements of \<^verbatim>\<open>Render\<close>: the number of fence values issued, how many of
  them may be unreached (one more between the signal and the wait), and the number of lists
  submitted (one more than fence values between the submission and the signal).
\<close>

definition issued :: "nat \<Rightarrow> state \<Rightarrow> nat" where
  "issued k t = (if k = 10 then m_fenceValue t + 1 else m_fenceValue t)"

definition slack :: "nat \<Rightarrow> nat" where
  "slack k = (if k = 10 \<or> k = 11 then 2 else 1)"

definition submitted :: "nat \<Rightarrow> state \<Rightarrow> nat" where
  "submitted k t = (if 7 \<le> k \<and> k \<le> 9 then issued k t + 1 else issued k t)"

definition sync :: "nat \<Rightarrow> state \<Rightarrow> bool" where
  "sync k t \<longleftrightarrow>
     protocol (issued k t) (slack k) (submitted k t) t
   \<and> (k = 9 \<or> k = 10 \<longrightarrow> fence t = m_fenceValue t)
   \<and> (k = 11 \<longrightarrow> fence t + 1 = m_fenceValue t)"

text \<open>
  The buffers with work that was submitted and that the queue has not executed yet.
\<close>

definition works :: "gpu_item list \<Rightarrow> nat list" where
  "works q = concat (map (\<lambda>x. case x of Work i \<Rightarrow> [i] | _ \<Rightarrow> []) q)"

definition busy :: "state \<Rightarrow> nat set" where
  "busy t = set (works (gpu_queue t))"

text \<open>
  The queue executes the signals in the order they were issued. \<open>in_order n t\<close>: of the \<open>n\<close>
  values issued, the signals still queued are the last ones, in ascending order without
  gaps, and the fence holds the value before the first of them (or its creation value 0).
\<close>

definition in_order :: "nat \<Rightarrow> state \<Rightarrow> bool" where
  "in_order n t \<longleftrightarrow>
     length (pending (gpu_queue t)) \<le> n
   \<and> pending (gpu_queue t) = [n - length (pending (gpu_queue t))..<n]
   \<and> fence_completed t = n - length (pending (gpu_queue t)) - 1"

text \<open>The queue is empty or its last item is a signal.\<close>

definition ends_with_signal :: "gpu_item list \<Rightarrow> bool" where
  "ends_with_signal q \<longleftrightarrow>
     q = [] \<or> (case last q of SignalFence v \<Rightarrow> True | Work i \<Rightarrow> False)"

text \<open>
  After \<open>k\<close> statements of \<^verbatim>\<open>Render\<close>: the fence protocol, the signals in order, and,
  except between the submission and the signal, a signal at the end of the queue.
\<close>

definition tight :: "nat \<Rightarrow> state \<Rightarrow> bool" where
  "tight k t \<longleftrightarrow>
     sync k t \<and> in_order (issued k t) t
   \<and> (\<not> (7 \<le> k \<and> k \<le> 9) \<longrightarrow> ends_with_signal (gpu_queue t))"

text \<open>The buffers fetched from the swap chain, as a rebuild of the ring would do.\<close>

definition rebuilds :: "call list \<Rightarrow> nat list" where
  "rebuilds cs = concat (map (\<lambda>c. case c of GetBuffer i \<Rightarrow> [i] | _ \<Rightarrow> []) cs)"

text \<open>The calls that give a handle back.\<close>

fun is_release :: "call \<Rightarrow> bool" where
  "is_release (Release h) = True"
| "is_release DestroyWindow = True"
| "is_release c = False"

text \<open>The calls that read the fence or wait for it.\<close>

fun is_fence_wait :: "call \<Rightarrow> bool" where
  "is_fence_wait (GetCompletedValue c) = True"
| "is_fence_wait (SetEventOnCompletion v) = True"
| "is_fence_wait WaitForSingleObject = True"
| "is_fence_wait c = False"

text \<open>The state a process ends in.\<close>

fun ended :: "ending \<Rightarrow> state" where
  "ended (Exit r s) = s"
| "ended (Terminate x s) = s"
| "ended (Never s) = s"

text \<open>
  The wait for \<open>v\<close> will end: the fence has reached \<open>v\<close>, or the signal of \<open>v\<close> is the last
  item of the queue.
\<close>

definition ready :: "nat \<Rightarrow> state \<Rightarrow> bool" where
  "ready v u \<longleftrightarrow>
     v \<le> fence_completed u \<or> (gpu_queue u \<noteq> [] \<and> last (gpu_queue u) = SignalFence v)"

text \<open>Every call of the frame succeeds.\<close>

definition all_succeed :: "frame_env \<Rightarrow> bool" where
  "all_succeed e \<longleftrightarrow>
     \<not> FAILED (hr_AllocatorReset e) \<and> \<not> FAILED (hr_ListReset e) \<and> \<not> FAILED (hr_Close e)
   \<and> \<not> FAILED (hr_Present e) \<and> \<not> FAILED (hr_Signal e)
   \<and> \<not> FAILED (hr_SetEventOnCompletion e)"

text \<open>The fence protocol, together with the certainty that a wait begun will end.\<close>

definition going :: "nat \<Rightarrow> state \<Rightarrow> bool" where
  "going k t \<longleftrightarrow> sync k t \<and> (k = 10 \<or> k = 11 \<longrightarrow> ready (fence t) t)"

text \<open>
  The only handle given back so far is the constructor's local swap-chain pointer.
\<close>

definition quiet :: "state \<Rightarrow> bool" where
  "quiet s \<longleftrightarrow> filter is_release (trace s) = [Release h_localSwapChain]"

text \<open>A platform on which every call succeeds; the swap chain starts at buffer 0.\<close>

definition ok_setup :: setup_env where
  "ok_setup =
     \<lparr>RegisterClassExW_ok = True, AdjustWindowRect_ok = True, CreateWindowExW_ok = True,
      CreateEventW_ok = True, last_error = 0, debug_build = False,
      hr_D3D12GetDebugInterface = 0, hr_CreateDXGIFactory2 = 0, hr_D3D12CreateDevice = 0,
      hr_CreateCommandQueue = 0, hr_CreateSwapChainForHwnd = 0, hr_MakeWindowAssociation = 0,
      hr_As = 0, hr_CreateDescriptorHeap = 0, hr_GetBuffer = (\<lambda>i. 0),
      hr_CreateCommandAllocator = 0, hr_CreateCommandList = 0, hr_CreateFence = 0,
      first_index = 0\<rparr>"

text \<open>
  One successful frame: the queue executes nothing on its own, and the swap chain then
  reports buffer \<open>i\<close>.
\<close>

definition ok_frame :: "nat \<Rightarrow> frame_env" where
  "ok_frame i =
     \<lparr>hr_AllocatorReset = 0, hr_ListReset = 0, hr_Close = 0, hr_Present = 0, hr_Signal = 0,
      hr_SetEventOnCompletion = 0, gpu_steps = (\<lambda>k. 0), next_index = i\<rparr>"

text \<open>Messages for the window: a paint request after which the swap chain reports buffer
  \<open>i\<close>, a close request, a resize to \<open>w\<close> by \<open>h\<close>; and the quit message.\<close>

definition paint_msg :: "nat \<Rightarrow> MSG" where
  "paint_msg i = \<lparr>message = WM_PAINT, to_window = True, wParam = 0, lParam = 0,
                  answers = ok_frame i\<rparr>"

definition close_msg :: MSG where
  "close_msg = \<lparr>message = WM_CLOSE, to_window = True, wParam = 0, lParam = 0,
                 answers = ok_frame 0\<rparr>"

definition size_msg :: "nat \<Rightarrow> nat \<Rightarrow> MSG" where
  "size_msg w h = \<lparr>message = WM_SIZE, to_window = True, wParam = 0,
                   lParam = of_nat (h * 65536 + w), answers = ok_frame 0\<rparr>"

definition quit_msg :: MSG where
  "quit_msg = \<lparr>message = WM_QUIT, to_window = False, wParam = 0, lParam = 0,
                answers = ok_frame 0\<rparr>"

text \<open>The state after a successful start, and after a run of frames from there.\<close>

definition started :: state where
  "started = final (App ok_setup)"

definition after_frames :: "frame_env list \<Rightarrow> state" where
  "after_frames es = final (ticks es started)"

section \<open>Failures during setup\<close>

lemma digit_value_hex_digit:
  assumes "d < 16"
  shows "digit_value (hex_digit d) = d"
proof -
  from assms consider "d = 0" | "d = 1" | "d = 2" | "d = 3" | "d = 4" | "d = 5" | "d = 6"
    | "d = 7" | "d = 8" | "d = 9" | "d = 10" | "d = 11" | "d = 12" | "d = 13" | "d = 14"
    | "d = 15"
    by atomize_elim arith
  then show ?thesis
    by cases (simp_all add: hex_digit_def digit_value_def)
qed

lemma horner16: "16 * (m div 16) + m mod 16 = (m::nat)"
  by simp

lemma read_hex_hex8:
  assumes "n < 2 ^ 32"
  shows "read_hex (hex8 n) = n"
proof -
  define x1 where "x1 = n div 16"
  define x2 where "x2 = x1 div 16"
  define x3 where "x3 = x2 div 16"
  define x4 where "x4 = x3 div 16"
  define x5 where "x5 = x4 div 16"
  define x6 where "x6 = x5 div 16"
  define x7 where "x7 = x6 div 16"
  have d: "n div 16 ^ 1 = x1" "n div 16 ^ 2 = x2" "n div 16 ^ 3 = x3" "n div 16 ^ 4 = x4"
    "n div 16 ^ 5 = x5" "n div 16 ^ 6 = x6" "n div 16 ^ 7 = x7"
    unfolding x1_def x2_def x3_def x4_def x5_def x6_def x7_def
    by (simp_all add: div_mult2_eq)
  have "x7 < 16"
    using assms d(7) by (simp add: less_mult_imp_div_less)
  then have x7: "x7 mod 16 = x7"
    by simp
  have "read_hex (hex8 n) =
      16 * (16 * (16 * (16 * (16 * (16 * (16 * (x7 mod 16) + x6 mod 16) + x5 mod 16)
        + x4 mod 16) + x3 mod 16) + x2 mod 16) + x1 mod 16) + n mod 16"
    using d by (simp add: read_hex_def hex8_def digit_value_hex_digit)
  also have "\<dots> = n"
    unfolding x7 unfolding x7_def horner16 unfolding x6_def horner16
    unfolding x5_def horner16 unfolding x4_def horner16 unfolding x3_def horner16
    unfolding x2_def horner16 unfolding x1_def horner16 ..
  finally show ?thesis .
qed

lemma message_holds_code: "read_hex (drop 13 (HrToString hr)) = unat hr"
proof -
  have "unat hr < 2 ^ 32"
    using unsigned_less [of hr] by simp
  then show ?thesis
    by (simp add: HrToString_def read_hex_hex8)
qed

lemma frames_upt: "[0..<FrameCount] = [0, 1]"
  by (simp add: FrameCount_def numeral_2_eq_2 upt_conv_Cons)

lemmas setup_defs = App_def App_steps_def checked_def ThrowIfFailed_def log_def win32_def
  plain_def debug_layer_def read_index_def render_target_def create_command_list_def
  close_unchecked_def create_fence_def blank_def frames_upt HrException_ctor_def

text \<open>
  Claim C9. When the window was created and some setup call checked by \<^verbatim>\<open>ThrowIfFailed\<close>
  returns a failing status, the constructor throws at the first such call \<open>c\<close>, with
  status \<open>hr\<close>: the exception carries \<open>hr\<close>, its message is \<^verbatim>\<open>HRESULT of 0x\<close> followed
  by the eight hexadecimal digits of \<open>hr\<close> (reading them back gives \<open>hr\<close>), \<open>c\<close> is the last
  call made (no later checked setup call runs, nor the event creation, nor
  \<^verbatim>\<open>ShowWindow\<close>), and \<^verbatim>\<open>wWinMain\<close> does not catch it: the process is terminated.
\<close>

theorem setup_failure_raises:
  assumes "RegisterClassExW_ok e" and "AdjustWindowRect_ok e" and "CreateWindowExW_ok e"
    and "find (\<lambda>(c, hr). FAILED hr) (setup_statuses e) = Some (c, hr)"
  shows "\<exists>s. App e = Throws (HrException hr (HrToString hr)) s
           \<and> Error (HrException hr (HrToString hr)) = hr
           \<and> what (HrException hr (HrToString hr)) = ''HRESULT of 0x'' @ hex8 (unat hr)
           \<and> read_hex (drop 13 (HrToString hr)) = unat hr
           \<and> last (trace s) = c
           \<and> (\<forall>c' \<in> set (after c (map fst (setup_statuses e))
                            @ [CreateEventW, ShowWindow]).
                 c' \<notin> set (trace s))
           \<and> wWinMain e ms = Terminate (HrException hr (HrToString hr)) s"
  using assms
  apply (simp add: setup_statuses_def message_holds_code split: if_splits)
  apply (auto simp add: setup_defs wWinMain_def after_def HrToString_def)
  done

theorem setup_failure_raises_witness:
  "RegisterClassExW_ok ok_setup \<and> AdjustWindowRect_ok ok_setup \<and> CreateWindowExW_ok ok_setup
   \<and> find (\<lambda>(c, hr). FAILED hr)
        (setup_statuses (ok_setup\<lparr>hr_CreateCommandQueue := 0x887A0005\<rparr>))
      = Some (CreateCommandQueue, 0x887A0005)
   \<and> (\<exists>s. App (ok_setup\<lparr>hr_CreateCommandQueue := 0x887A0005\<rparr>)
            = Throws (HrException 0x887A0005 ''HRESULT of 0x887A0005'') s
          \<and> last (trace s) = CreateCommandQueue
          \<and> CreateSwapChainForHwnd \<notin> set (trace s)
          \<and> wWinMain (ok_setup\<lparr>hr_CreateCommandQueue := 0x887A0005\<rparr>) []
              = Terminate (HrException 0x887A0005 ''HRESULT of 0x887A0005'') s)"
proof -
  have f: "find (\<lambda>(c, hr). FAILED hr)
        (setup_statuses (ok_setup\<lparr>hr_CreateCommandQueue := 0x887A0005\<rparr>))
      = Some (CreateCommandQueue, 0x887A0005)"
    by (simp add: setup_statuses_def ok_setup_def FAILED_def)
  have m: "HrToString 0x887A0005 = ''HRESULT of 0x887A0005''"
    by (simp add: HrToString_def hex8_def hex_digit_def)
  have o: "RegisterClassExW_ok (ok_setup\<lparr>hr_CreateCommandQueue := 0x887A0005\<rparr>)"
    "AdjustWindowRect_ok (ok_setup\<lparr>hr_CreateCommandQueue := 0x887A0005\<rparr>)"
    "CreateWindowExW_ok (ok_setup\<lparr>hr_CreateCommandQueue := 0x887A0005\<rparr>)"
    by (simp_all add: ok_setup_def)
  show ?thesis
    using setup_failure_raises [OF o f, of "[]"] f
    by (auto simp add: m ok_setup_def setup_statuses_def after_def)
qed

section \<open>One frame, statement by statement\<close>

lemma gpu_run_fields [simp]:
  "trace (gpu_run k s) = trace s"
  "m_frameIndex (gpu_run k s) = m_frameIndex s"
  "m_fenceValue (gpu_run k s) = m_fenceValue s"
  "fence (gpu_run k s) = fence s"
  "list_closed (gpu_run k s) = list_closed s"
  by (induction k arbitrary: s; simp split: list.splits)+

lemma run_invariant:
  assumes "run g k fs s = Returns s'" and "P k s"
    and "\<And>j t t'. j < length fs \<Longrightarrow> P (k + j) t \<Longrightarrow> (fs ! j) (gpu_run (g (k + j)) t) = Returns t'
            \<Longrightarrow> P (Suc (k + j)) t'"
  shows "P (k + length fs) s'"
  using assms
proof (induction fs arbitrary: k s)
  case Nil
  then show ?case by simp
next
  case (Cons f fs)
  from Cons.prems(1) obtain s1 where f: "f (gpu_run (g k) s) = Returns s1"
    and r: "run g (Suc k) fs s1 = Returns s'"
    by (auto split: outcome.splits)
  have p1: "P (Suc k) s1"
    using Cons.prems(3) [of 0 s s1] Cons.prems(2) f by simp
  have "P (Suc k + length fs) s'"
  proof (rule Cons.IH [OF r p1])
    fix j t t'
    assume "j < length fs" "P (Suc k + j) t" "(fs ! j) (gpu_run (g (Suc k + j)) t) = Returns t'"
    then show "P (Suc (Suc k + j)) t'"
      using Cons.prems(3) [of "Suc j" t t'] by simp
  qed
  then show ?case by simp
qed

lemma checked_Returns: "checked c hr s = Returns t \<longleftrightarrow> \<not> FAILED hr \<and> t = log c s"
  by (auto simp add: checked_def ThrowIfFailed_def)

lemma reset_list_Returns:
  "reset_list hr s = Returns t \<longleftrightarrow> \<not> FAILED hr \<and> t = (log ListReset s)\<lparr>list_closed := False\<rparr>"
  by (auto simp add: reset_list_def checked_def ThrowIfFailed_def)

lemma close_list_Returns:
  "close_list hr s = Returns t \<longleftrightarrow> \<not> FAILED hr \<and> t = (log ListClose s)\<lparr>list_closed := True\<rparr>"
  by (auto simp add: close_list_def checked_def ThrowIfFailed_def)

lemma signal_Returns:
  "signal hr s = Returns t \<longleftrightarrow>
     \<not> FAILED hr \<and> t = (log (Signal (fence s)) s)\<lparr>gpu_queue := gpu_queue s @ [SignalFence (fence s)]\<rparr>"
  by (auto simp add: signal_def checked_def ThrowIfFailed_def log_def)

lemma wait_if_needed_Returns:
  "wait_if_needed hr s = Returns t \<longleftrightarrow>
     (if fence_completed s < fence s
      then \<not> FAILED hr \<and>
        (\<exists>q c. await (fence s) (gpu_queue s) (fence_completed s) = Some (q, c) \<and>
           t = s\<lparr>trace := trace s @ handshake (fence s) (fence_completed s),
                 gpu_queue := q, fence_completed := c\<rparr>)
      else t = s\<lparr>trace := trace s @ handshake (fence s) (fence_completed s)\<rparr>)"
  by (auto simp add: wait_if_needed_def block_on_event_def checked_def ThrowIfFailed_def log_def
      handshake_def split: option.splits)

lemmas step_Returns = checked_Returns reset_list_Returns close_list_Returns signal_Returns
  wait_if_needed_Returns barrier_def clear_def plain_def execute_def take_fence_def
  increment_def read_index_def log_def

lemma below_13:
  assumes "j < (13::nat)"
  obtains "j = 0" | "j = 1" | "j = 2" | "j = 3" | "j = 4" | "j = 5" | "j = 6" | "j = 7"
    | "j = 8" | "j = 9" | "j = 10" | "j = 11" | "j = 12"
  using assms by atomize_elim arith

lemma shape_step:
  assumes "j < 13" and "shape e s j t" and "(Render_steps e ! j) (gpu_run n t) = Returns t'"
  shows "shape e s (Suc j) t'"
  using assms(1)
proof (cases rule: below_13)
  case 13
  from assms(2) obtain c where
    "trace t = trace s @ first_calls (m_frameIndex s) (m_fenceValue s) @ handshake (m_fenceValue s) c"
    by (auto simp add: shape_def 13)
  then show ?thesis using assms(2,3) 
    by (auto simp add: 13 shape_def Render_steps_def step_Returns frame_calls_def)
next
  case 12
  then show ?thesis using assms(2,3) 
    by (auto simp add: shape_def Render_steps_def step_Returns made_def first_calls_def split: if_splits)
qed (insert assms(2,3), auto simp add: shape_def Render_steps_def step_Returns made_def first_calls_def)


lemma shape_start: "shape e s 0 s"
  by (simp add: shape_def made_def)

lemma length_Render_steps: "length (Render_steps e) = 13"
  by (simp add: Render_steps_def)

lemma shape_Render:
  assumes "Render e s = Returns s'"
  shows "shape e s 13 s'"
proof -
  have "shape e s (0 + length (Render_steps e)) s'"
  proof (rule run_invariant [where P = "shape e s" and g = "gpu_steps e"])
    show "run (gpu_steps e) 0 (Render_steps e) s = Returns s'"
      using assms by (simp add: Render_def)
    show "shape e s 0 s" by (rule shape_start)
  next
    fix j t t'
    assume "j < length (Render_steps e)" "shape e s (0 + j) t"
      "(Render_steps e ! j) (gpu_run (gpu_steps e (0 + j)) t) = Returns t'"
    then show "shape e s (Suc (0 + j)) t'"
      using shape_step [of j e s t "gpu_steps e j" t'] by (simp add: length_Render_steps)
  qed
  then show ?thesis by (simp add: length_Render_steps)
qed

lemma shape_upto:
  assumes "Render_upto k e s = Returns t"
  shows "shape e s (min k 13) t"
proof -
  have "shape e s (0 + length (take k (Render_steps e))) t"
  proof (rule run_invariant [where P = "shape e s" and g = "gpu_steps e"])
    show "run (gpu_steps e) 0 (take k (Render_steps e)) s = Returns t"
      using assms by (simp add: Render_upto_def)
    show "shape e s 0 s" by (rule shape_start)
  next
    fix j u u'
    assume "j < length (take k (Render_steps e))" "shape e s (0 + j) u"
      "(take k (Render_steps e) ! j) (gpu_run (gpu_steps e (0 + j)) u) = Returns u'"
    then show "shape e s (Suc (0 + j)) u'"
      using shape_step [of j e s u "gpu_steps e j" u'] by (simp add: length_Render_steps)
  qed
  then show ?thesis by (simp add: length_Render_steps min.commute)
qed

lemma signals_append [simp]: "signals (xs @ ys) = signals xs @ signals ys"
  by (simp add: signals_def)

lemma executes_append [simp]: "executes (xs @ ys) = executes xs @ executes ys"
  by (simp add: executes_def)

lemma pending_append [simp]: "pending (xs @ ys) = pending xs @ pending ys"
  by (simp add: pending_def)

lemma pending_Cons [simp]:
  "pending (Work i # q) = pending q"
  "pending (SignalFence v # q) = v # pending q"
  "pending [] = []"
  by (simp_all add: pending_def)

lemma protocol_gpu_run:
  assumes "protocol m d l s"
  shows "protocol m d l (gpu_run n s)"
  using assms
proof (induction n arbitrary: s)
  case 0
  then show ?case by simp
next
  case (Suc n)
  show ?case
  proof (cases "gpu_queue s")
    case Nil
    then show ?thesis using Suc.prems by simp
  next
    case (Cons x q)
    have "protocol m d l (s\<lparr>gpu_queue := q, fence_completed := complete x (fence_completed s)\<rparr>)"
    proof (cases x)
      case (Work i)
      then show ?thesis using Suc.prems Cons by (simp add: protocol_def)
    next
      case (SignalFence v)
      then show ?thesis using Suc.prems Cons
        by (auto simp add: protocol_def)
    qed
    then show ?thesis using Cons Suc.IH by simp
  qed
qed

lemma await_Some:
  assumes "await v q c = Some (q', c')" and "sorted (c # pending q)"
  shows "v \<le> c' \<and> sorted (c' # pending q') \<and> set (pending q') \<subseteq> set (pending q)
         \<and> (c' = c \<or> c' \<in> set (pending q))"
  using assms
proof (induction q arbitrary: c)
  case Nil
  then show ?case by (simp split: if_splits)
next
  case (Cons x q)
  show ?case
  proof (cases "v \<le> c")
    case True
    then show ?thesis using Cons.prems by simp
  next
    case False
    then have a: "await v q (complete x c) = Some (q', c')"
      using Cons.prems(1) by simp
    show ?thesis
    proof (cases x)
      case (Work i)
      then show ?thesis using Cons.IH [OF a] Cons.prems(2) by simp
    next
      case (SignalFence w)
      then show ?thesis using Cons.IH [OF a] Cons.prems(2) by auto
    qed
  qed
qed

lemma issued_gpu_run [simp]: "issued k (gpu_run n s) = issued k s"
  by (simp add: issued_def)

lemma submitted_gpu_run [simp]: "submitted k (gpu_run n s) = submitted k s"
  by (simp add: submitted_def)

lemma sync_gpu_run:
  assumes "sync k s"
  shows "sync k (gpu_run n s)"
  using assms protocol_gpu_run [of "issued k s" "slack k" "submitted k s" s n]
  unfolding sync_def by simp

lemma sync_step0:
  assumes "j < 13" and "sync j u" and "(Render_steps e ! j) u = Returns t'"
  shows "sync (Suc j) t'"
  using assms(1)
proof (cases rule: below_13)
  case 12
  have srt: "sorted (fence_completed u # pending (gpu_queue u))"
    using assms(2) by (simp add: sync_def protocol_def)
  show ?thesis
  proof (cases "fence_completed u < fence u")
    case True
    with assms(3) 12 obtain q c where a: "await (fence u) (gpu_queue u) (fence_completed u) = Some (q, c)"
      and t': "t' = u\<lparr>trace := trace u @ handshake (fence u) (fence_completed u),
                 gpu_queue := q, fence_completed := c\<rparr>"
      by (auto simp add: Render_steps_def step_Returns)
    from await_Some [OF a srt] assms(2) True show ?thesis
      by (auto simp add: t' 12 sync_def protocol_def issued_def slack_def submitted_def
          handshake_def signals_def executes_def)
  next
    case False
    with assms(3) 12 have t': "t' = u\<lparr>trace := trace u @ handshake (fence u) (fence_completed u)\<rparr>"
      by (auto simp add: Render_steps_def step_Returns)
    from assms(2) False show ?thesis
      by (auto simp add: t' 12 sync_def protocol_def issued_def slack_def submitted_def
          handshake_def signals_def executes_def)
  qed
qed (insert assms(2,3), auto simp add: Render_steps_def step_Returns sync_def protocol_def
    issued_def slack_def submitted_def signals_def executes_def sorted_append)

lemma sync_step:
  assumes "j < 13" and "sync j t" and "(Render_steps e ! j) (gpu_run n t) = Returns t'"
  shows "sync (Suc j) t'"
  using sync_step0 [OF assms(1) sync_gpu_run [OF assms(2)] assms(3)] .


lemma sync_13: "sync 13 t = sync 0 t"
  by (simp add: sync_def issued_def slack_def submitted_def)

lemma sync_upto:
  assumes "sync 0 s" and "Render_upto k e s = Returns t"
  shows "sync (min k 13) t"
proof -
  have "sync (0 + length (take k (Render_steps e))) t"
  proof (rule run_invariant [where P = sync and g = "gpu_steps e"])
    show "run (gpu_steps e) 0 (take k (Render_steps e)) s = Returns t"
      using assms(2) by (simp add: Render_upto_def)
    show "sync 0 s" by (rule assms(1))
  next
    fix j u u'
    assume "j < length (take k (Render_steps e))" "sync (0 + j) u"
      "(take k (Render_steps e) ! j) (gpu_run (gpu_steps e (0 + j)) u) = Returns u'"
    then show "sync (Suc (0 + j)) u'"
      using sync_step [of j u e "gpu_steps e j" u'] by (simp add: length_Render_steps)
  qed
  then show ?thesis by (simp add: length_Render_steps min.commute)
qed

lemma Render_upto_all: "Render_upto 13 e s = Render e s"
  by (simp add: Render_upto_def Render_def Render_steps_def)

lemma sync_Render:
  assumes "sync 0 s" and "Render e s = Returns s'"
  shows "sync 0 s'"
  using sync_upto [of s 13 e s'] assms by (simp add: Render_upto_all sync_13)

lemma sync_ticks:
  assumes "sync 0 s" and "ticks es s = Returns s'"
  shows "sync 0 s' \<and> m_fenceValue s' = m_fenceValue s + length es"
  using assms
proof (induction es arbitrary: s)
  case Nil
  then show ?case by simp
next
  case (Cons e es)
  from Cons.prems(2) obtain s1 where r: "Render e s = Returns s1" and t: "ticks es s1 = Returns s'"
    by (auto split: outcome.splits)
  have "sync 0 s1" using sync_Render [OF Cons.prems(1) r] .
  moreover have "m_fenceValue s1 = m_fenceValue s + 1"
    using shape_Render [OF r] by (simp add: shape_def)
  ultimately show ?case using Cons.IH [OF _ t] by simp
qed

lemma App_Returns:
  assumes "App e = Returns s"
  shows "m_fenceValue s = 0 \<and> fence_completed s = 0 \<and> gpu_queue s = [] \<and> list_closed s
       \<and> m_frameIndex s = first_index e \<and> signals (trace s) = [] \<and> executes (trace s) = []
       \<and> reported (trace s) = [first_index e]
       \<and> PostQuitMessage \<notin> set (trace s)"
  using assms
  by (auto simp add: setup_defs signals_def executes_def reported_def split: if_splits)

lemma sync_App:
  assumes "App e = Returns s"
  shows "sync 0 s"
  using App_Returns [OF assms]
  by (simp add: sync_def protocol_def issued_def slack_def submitted_def)

section \<open>The queue between frames\<close>

text \<open>
  The queue executes the signals in the order of their values, and a wait is some number of
  steps of the queue. So once two frames have been submitted, the queue is empty whenever
  \<^verbatim>\<open>Render\<close> has returned.
\<close>

lemma in_order_Work:
  "in_order n (s\<lparr>gpu_queue := q, fence_completed := fence_completed s\<rparr>) = in_order n s"
  if "gpu_queue s = Work i # q"
  using that by (simp add: in_order_def)

lemma in_order_Signal:
  assumes "gpu_queue s = SignalFence v # q" and "in_order n s"
  shows "in_order n (s\<lparr>gpu_queue := q, fence_completed := v\<rparr>)"
proof -
  let ?l = "length (pending q)"
  from assms have l: "Suc ?l \<le> n" and p: "v # pending q = [n - Suc ?l..<n]"
    by (simp_all add: in_order_def)
  from p [symmetric] have v: "v = n - Suc ?l" and r: "pending q = [Suc (n - Suc ?l)..<n]"
    by (auto simp add: upt_eq_Cons_conv)
  have "Suc (n - Suc ?l) = n - ?l" using l by simp
  then show ?thesis
    using l v r by (simp add: in_order_def)
qed

lemma ends_with_signal_tl:
  assumes "ends_with_signal (x # q)"
  shows "ends_with_signal q"
  using assms by (cases "q = []") (simp_all add: ends_with_signal_def)

lemma in_order_gpu_run:
  assumes "in_order n s"
  shows "in_order n (gpu_run j s)"
  using assms
proof (induction j arbitrary: s)
  case 0
  then show ?case by simp
next
  case (Suc j)
  show ?case
  proof (cases "gpu_queue s")
    case Nil
    then show ?thesis using Suc.prems by simp
  next
    case (Cons x q)
    have "in_order n (s\<lparr>gpu_queue := q, fence_completed := complete x (fence_completed s)\<rparr>)"
    proof (cases x)
      case (Work i)
      then show ?thesis using Suc.prems Cons in_order_Work [of s i q n] by simp
    next
      case (SignalFence v)
      then show ?thesis using Suc.prems Cons in_order_Signal [of s v q n] by simp
    qed
    then show ?thesis using Cons Suc.IH by simp
  qed
qed

lemma ends_gpu_run:
  assumes "ends_with_signal (gpu_queue s)"
  shows "ends_with_signal (gpu_queue (gpu_run j s))"
  using assms
proof (induction j arbitrary: s)
  case 0
  then show ?case by simp
next
  case (Suc j)
  show ?case
  proof (cases "gpu_queue s")
    case Nil
    then show ?thesis using Suc.prems by simp
  next
    case (Cons x q)
    then have "ends_with_signal q"
      using Suc.prems ends_with_signal_tl by simp
    then show ?thesis using Cons Suc.IH by simp
  qed
qed

lemma tight_gpu_run:
  assumes "tight k s"
  shows "tight k (gpu_run j s)"
  using assms sync_gpu_run [of k s j] in_order_gpu_run [of "issued k s" s j]
    ends_gpu_run [of s j]
  unfolding tight_def by simp

lemma await_as_gpu_run:
  assumes "await v q c = Some (q', c')"
  shows "\<exists>j. gpu_run j (u\<lparr>gpu_queue := q, fence_completed := c\<rparr>)
           = u\<lparr>gpu_queue := q', fence_completed := c'\<rparr>"
  using assms
proof (induction q arbitrary: c)
  case Nil
  then have "gpu_run 0 (u\<lparr>gpu_queue := [], fence_completed := c\<rparr>)
      = u\<lparr>gpu_queue := q', fence_completed := c'\<rparr>"
    by (simp split: if_splits)
  then show ?case by blast
next
  case (Cons x q)
  show ?case
  proof (cases "v \<le> c")
    case True
    then have "gpu_run 0 (u\<lparr>gpu_queue := x # q, fence_completed := c\<rparr>)
      = u\<lparr>gpu_queue := q', fence_completed := c'\<rparr>"
      using Cons.prems by simp
    then show ?thesis by blast
  next
    case False
    then have "await v q (complete x c) = Some (q', c')"
      using Cons.prems by simp
    from Cons.IH [OF this] obtain j where
      "gpu_run j (u\<lparr>gpu_queue := q, fence_completed := complete x c\<rparr>)
         = u\<lparr>gpu_queue := q', fence_completed := c'\<rparr>"
      by blast
    then have "gpu_run (Suc j) (u\<lparr>gpu_queue := x # q, fence_completed := c\<rparr>)
         = u\<lparr>gpu_queue := q', fence_completed := c'\<rparr>"
      by simp
    then show ?thesis by blast
  qed
qed


lemma in_order_signal:
  assumes "in_order n u"
  shows "in_order (Suc n) (u\<lparr>trace := tr, gpu_queue := gpu_queue u @ [SignalFence n]\<rparr>)"
proof -
  let ?l = "length (pending (gpu_queue u))"
  from assms have l: "?l \<le> n" and p: "pending (gpu_queue u) = [n - ?l..<n]"
    and c: "fence_completed u = n - ?l - 1"
    by (simp_all add: in_order_def)
  have "pending (gpu_queue u) @ [n] = [n - ?l..<Suc n]"
    using p l by simp
  then show ?thesis
    using l c by (simp add: in_order_def)
qed

lemma in_order_fields:
  "in_order n (u\<lparr>trace := tr\<rparr>) = in_order n u"
  "in_order n (u\<lparr>trace := tr, list_closed := b\<rparr>) = in_order n u"
  "in_order n (u\<lparr>trace := tr, m_frameIndex := i\<rparr>) = in_order n u"
  "in_order n (u\<lparr>fence := f\<rparr>) = in_order n u"
  "in_order n (u\<lparr>m_fenceValue := m\<rparr>) = in_order n u"
  "in_order n (u\<lparr>trace := tr, gpu_queue := gpu_queue u @ [Work i]\<rparr>) = in_order n u"
  by (simp_all add: in_order_def)

lemma tight_step0:
  assumes "j < 13" and "tight j u" and "(Render_steps e ! j) u = Returns t'"
  shows "tight (Suc j) t'"
proof -
  have s: "sync (Suc j) t'"
    using sync_step0 [OF assms(1) _ assms(3)] assms(2) by (simp add: tight_def)
  have o: "in_order (issued j u) u"
    and n: "\<not> (7 \<le> j \<and> j \<le> 9) \<Longrightarrow> ends_with_signal (gpu_queue u)"
    and y: "sync j u"
    using assms(2) by (simp_all add: tight_def)
  have "in_order (issued (Suc j) t') t'
      \<and> (\<not> (7 \<le> Suc j \<and> Suc j \<le> 9) \<longrightarrow> ends_with_signal (gpu_queue t'))"
    using assms(1)
  proof (cases rule: below_13)
    case 10
    then have f: "fence u = m_fenceValue u"
      using y by (simp add: sync_def)
    then show ?thesis
      using 10 assms(3) o in_order_signal [of "m_fenceValue u" u]
      by (auto simp add: Render_steps_def step_Returns issued_def ends_with_signal_def)
  next
    case 12
    let ?h = "trace u @ handshake (fence u) (fence_completed u)"
    have "\<exists>j'. t' = (gpu_run j' u)\<lparr>trace := ?h\<rparr>"
    proof (cases "fence_completed u < fence u")
      case True
      with assms(3) 12 obtain q c where
        a: "await (fence u) (gpu_queue u) (fence_completed u) = Some (q, c)"
        and t': "t' = u\<lparr>trace := ?h, gpu_queue := q, fence_completed := c\<rparr>"
        by (auto simp add: Render_steps_def step_Returns)
      from await_as_gpu_run [OF a, of u] obtain j' where
        "gpu_run j' u = u\<lparr>gpu_queue := q, fence_completed := c\<rparr>"
        by auto
      then have "t' = (gpu_run j' u)\<lparr>trace := ?h\<rparr>"
        using t' by simp
      then show ?thesis by blast
    next
      case False
      with assms(3) 12 have "t' = (gpu_run 0 u)\<lparr>trace := ?h\<rparr>"
        by (auto simp add: Render_steps_def step_Returns)
      then show ?thesis by blast
    qed
    then obtain j' where t': "t' = (gpu_run j' u)\<lparr>trace := ?h\<rparr>" by blast
    have "tight 11 (gpu_run j' u)"
      using assms(2) 12 tight_gpu_run by simp
    then show ?thesis
      using 12 t' by (simp add: tight_def in_order_fields issued_def)
  qed (insert assms(3) o n, auto simp add: Render_steps_def step_Returns issued_def
        in_order_fields)
  then show ?thesis using s by (simp add: tight_def)
qed

lemma tight_step:
  assumes "j < 13" and "tight j t" and "(Render_steps e ! j) (gpu_run n t) = Returns t'"
  shows "tight (Suc j) t'"
  using tight_step0 [OF assms(1) tight_gpu_run [OF assms(2)] assms(3)] .


lemma tight_13: "tight 13 t = tight 0 t"
  by (simp add: tight_def sync_13 issued_def)

lemma tight_upto:
  assumes "tight 0 s" and "Render_upto k e s = Returns t"
  shows "tight (min k 13) t"
proof -
  have "tight (0 + length (take k (Render_steps e))) t"
  proof (rule run_invariant [where P = tight and g = "gpu_steps e"])
    show "run (gpu_steps e) 0 (take k (Render_steps e)) s = Returns t"
      using assms(2) by (simp add: Render_upto_def)
    show "tight 0 s" by (rule assms(1))
  next
    fix j u u'
    assume "j < length (take k (Render_steps e))" "tight (0 + j) u"
      "(take k (Render_steps e) ! j) (gpu_run (gpu_steps e (0 + j)) u) = Returns u'"
    then show "tight (Suc (0 + j)) u'"
      using tight_step [of j u e "gpu_steps e j" u'] by (simp add: length_Render_steps)
  qed
  then show ?thesis by (simp add: length_Render_steps min.commute)
qed

lemma tight_Render:
  assumes "tight 0 s" and "Render e s = Returns s'"
  shows "tight 0 s'"
  using tight_upto [of s 13 e s'] assms by (simp add: Render_upto_all tight_13)

lemma tight_ticks:
  assumes "tight 0 s" and "ticks es s = Returns s'"
  shows "tight 0 s'"
  using assms
proof (induction es arbitrary: s)
  case Nil
  then show ?case by simp
next
  case (Cons e es)
  from Cons.prems(2) obtain s1 where r: "Render e s = Returns s1" and t: "ticks es s1 = Returns s'"
    by (auto split: outcome.splits)
  show ?case using Cons.IH [OF tight_Render [OF Cons.prems(1) r] t] .
qed

lemma tight_App:
  assumes "App e = Returns s"
  shows "tight 0 s"
  using App_Returns [OF assms] sync_App [OF assms]
  by (simp add: tight_def in_order_def ends_with_signal_def issued_def)

lemma signal_in_pending:
  assumes "q \<noteq> []" and "ends_with_signal q"
  shows "pending q \<noteq> []"
proof -
  from assms obtain v where "last q = SignalFence v"
    by (auto simp add: ends_with_signal_def split: gpu_item.splits)
  then have "q = butlast q @ [SignalFence v]"
    using assms(1) by (metis append_butlast_last_id)
  then have "pending q = pending (butlast q) @ [v]"
    by (metis pending_append pending_Cons(2,3))
  then show ?thesis by simp
qed

lemma queue_empty:
  assumes "tight 0 s" and "2 \<le> m_fenceValue s"
  shows "gpu_queue (gpu_run j s) = []"
proof -
  let ?l = "length (pending (gpu_queue s))"
  from assms(1) have c: "fence_completed s = m_fenceValue s - ?l - 1"
    and b: "m_fenceValue s \<le> fence_completed s + 1"
    and e: "ends_with_signal (gpu_queue s)"
    by (simp_all add: tight_def in_order_def sync_def protocol_def issued_def slack_def)
  from c b assms(2) have "?l = 0" by arith
  then have "gpu_queue s = []"
    using e signal_in_pending by auto
  then show ?thesis by (cases j) simp_all
qed

section \<open>Concrete runs\<close>

lemmas render_eval = Render_def Render_steps_def step_Returns checked_def ThrowIfFailed_def
  reset_list_def close_list_def signal_def wait_if_needed_def block_on_event_def handshake_def
  setup_defs ok_setup_def FAILED_def ok_frame_def

lemma started_eq: "App ok_setup = Returns started"
  unfolding started_def by (simp add: setup_defs ok_setup_def FAILED_def)

lemma one_frame: "ticks [ok_frame 1] started = Returns (after_frames [ok_frame 1])"
  unfolding after_frames_def started_def by (simp add: render_eval)

lemma second_frame:
  "Render (ok_frame 0) (after_frames [ok_frame 1]) = Returns (after_frames [ok_frame 1, ok_frame 0])"
  unfolding after_frames_def started_def by (simp add: render_eval)

lemma five_statements:
  "Render_upto 5 (ok_frame 1) (after_frames [ok_frame 1, ok_frame 0])
     = Returns (final (Render_upto 5 (ok_frame 1) (after_frames [ok_frame 1, ok_frame 0])))"
  unfolding after_frames_def started_def Render_upto_def
  by (simp add: render_eval run.simps)

lemma one_statement:
  "Render_upto 1 (ok_frame 1) (after_frames [ok_frame 1, ok_frame 0])
     = Returns (final (Render_upto 1 (ok_frame 1) (after_frames [ok_frame 1, ok_frame 0])))"
  unfolding after_frames_def started_def Render_upto_def
  by (simp add: render_eval run.simps)

lemma same_index_frame:
  "Render (ok_frame 0) (after_frames [ok_frame 1, ok_frame 0])
     = Returns (after_frames [ok_frame 1, ok_frame 0, ok_frame 0])"
  unfolding after_frames_def started_def by (simp add: render_eval)

lemma sample_answers: "first_index ok_setup = 0" "next_index (ok_frame i) = i"
  by (simp_all add: ok_setup_def ok_frame_def)

lemma two_frames:
  "ticks [ok_frame 1, ok_frame 0] started = Returns (after_frames [ok_frame 1, ok_frame 0])"
  unfolding after_frames_def started_def by (simp add: render_eval)

lemma third_frame:
  "Render (ok_frame 1) (after_frames [ok_frame 1, ok_frame 0])
     = Returns (after_frames [ok_frame 1, ok_frame 0, ok_frame 1])"
  unfolding after_frames_def started_def by (simp add: render_eval)

section \<open>The fence counter\<close>

lemma signals_frame_calls: "signals (frame_calls i v c n) = [v]"
  by (auto simp add: frame_calls_def first_calls_def handshake_def signals_def)

lemma Render_trace:
  assumes "Render e s = Returns s'"
  obtains c where
    "trace s' = trace s @ frame_calls (m_frameIndex s) (m_fenceValue s) c (next_index e)"
  using shape_Render [OF assms] by (auto simp add: shape_def)

text \<open>
  Claim C3. After a successful start and \<open>F\<close> calls of \<^verbatim>\<open>Render\<close>, the fence values
  signalled so far are \<open>0, 1, \<dots>, F - 1\<close> in this order (so the \<open>i\<close>-th call signalled \<open>i\<close>,
  each value is one more than the one before, and none occurs twice), the counter holds
  \<open>F\<close>, and the next call signals the value the counter holds before the call and leaves
  the counter one higher.
\<close>

theorem fence_values_count_up:
  assumes "App e0 = Returns s0" and "ticks es s0 = Returns s"
  shows "signals (trace s) = [0..<length es]
       \<and> m_fenceValue s = length es
       \<and> (\<forall>e s'. Render e s = Returns s' \<longrightarrow>
            signals (trace s') = signals (trace s) @ [m_fenceValue s]
            \<and> m_fenceValue s' = m_fenceValue s + 1)"
proof -
  have s0: "sync 0 s0" and z: "m_fenceValue s0 = 0"
    using sync_App [OF assms(1)] App_Returns [OF assms(1)] by simp_all
  have s: "sync 0 s" and m: "m_fenceValue s = length es"
    using sync_ticks [OF s0 assms(2)] z by simp_all
  have "signals (trace s) = [0..<length es]"
    using s m by (simp add: sync_def protocol_def issued_def)
  moreover have "signals (trace s') = signals (trace s) @ [m_fenceValue s]
      \<and> m_fenceValue s' = m_fenceValue s + 1" if r: "Render e s = Returns s'" for e s'
  proof -
    from r obtain c where
      "trace s' = trace s @ frame_calls (m_frameIndex s) (m_fenceValue s) c (next_index e)"
      by (rule Render_trace)
    then show ?thesis
      using shape_Render [OF r] by (simp add: signals_frame_calls shape_def)
  qed
  ultimately show ?thesis using m by blast
qed

theorem fence_values_count_up_witness:
  "App ok_setup = Returns started
   \<and> ticks [ok_frame 1, ok_frame 0] started = Returns (after_frames [ok_frame 1, ok_frame 0])
   \<and> Render (ok_frame 1) (after_frames [ok_frame 1, ok_frame 0])
       = Returns (after_frames [ok_frame 1, ok_frame 0, ok_frame 1])
   \<and> signals (trace (after_frames [ok_frame 1, ok_frame 0])) = [0, 1]
   \<and> m_fenceValue (after_frames [ok_frame 1, ok_frame 0]) = 2
   \<and> signals (trace (after_frames [ok_frame 1, ok_frame 0, ok_frame 1])) = [0, 1, 2]
   \<and> m_fenceValue (after_frames [ok_frame 1, ok_frame 0, ok_frame 1]) = 3"
  using fence_values_count_up [OF started_eq two_frames] third_frame started_eq two_frames
  by (simp add: numeral_2_eq_2 numeral_3_eq_3)

section \<open>Reuse of the recorder\<close>

text \<open>
  Claim C1 fails on the code for the second frame. The counter starts at 0 (line 226), the
  value the fence is created with (line 150), so in the first call of \<^verbatim>\<open>Render\<close> the test
  of line 201 is \<open>0 < 0\<close> and nothing waits: the fence is read once, as 0, and no wait is
  made. When the second call resets the allocator and then the command list, the queue,
  which has not run meanwhile, still holds the work recorded through that allocator and the
  signal of the first frame.
\<close>

theorem first_reuse_finds_work_queued:
  "signals (trace (after_frames [ok_frame 1])) = [0]
   \<and> polls (trace (after_frames [ok_frame 1])) = [0]
   \<and> waits (trace (after_frames [ok_frame 1])) = []
   \<and> last (trace (final (Render_upto 1 (ok_frame 0) (after_frames [ok_frame 1]))))
       = AllocatorReset
   \<and> works (gpu_queue (final (Render_upto 1 (ok_frame 0) (after_frames [ok_frame 1])))) = [0]
   \<and> gpu_queue (final (Render_upto 2 (ok_frame 0) (after_frames [ok_frame 1])))
       = [Work 0, SignalFence 0]"
  unfolding after_frames_def started_def Render_upto_def
  by (simp add: render_eval run.simps signals_def polls_def waits_def works_def)

text \<open>From the third frame on the recorder is free when it is reset: the queue is empty.\<close>

lemma recorder_free_after_two_frames:
  assumes "App e0 = Returns s0" and "ticks es s0 = Returns s" and "2 \<le> length es"
  shows "gpu_queue (gpu_run j s) = []"
proof -
  have "tight 0 s"
    using tight_ticks [OF tight_App [OF assms(1)] assms(2)] .
  moreover have "m_fenceValue s = length es"
    using sync_ticks [OF sync_App [OF assms(1)] assms(2)] App_Returns [OF assms(1)] by simp
  ultimately show ?thesis
    using assms(3) queue_empty by simp
qed

section \<open>Buffers in flight\<close>

text \<open>
  Claim C4 fails on the code during the second frame, for the same reason: the first frame
  is not waited for. After the second call of \<^verbatim>\<open>Render\<close> has submitted its list, with a
  queue that has not run meanwhile, both buffers have submitted work that is not executed:
  all \<open>FrameCount\<close> buffers are in flight, and the fence is still at 0.
\<close>

theorem both_buffers_busy:
  "busy (final (Render_upto 7 (ok_frame 0) (after_frames [ok_frame 1]))) = {0, 1}
   \<and> card (busy (final (Render_upto 7 (ok_frame 0) (after_frames [ok_frame 1])))) = FrameCount
   \<and> executes (trace (final (Render_upto 7 (ok_frame 0) (after_frames [ok_frame 1])))) = [0, 1]
   \<and> fence_completed (final (Render_upto 7 (ok_frame 0) (after_frames [ok_frame 1]))) = 0"
proof -
  have q: "gpu_queue (final (Render_upto 7 (ok_frame 0) (after_frames [ok_frame 1])))
      = [Work 0, SignalFence 0, Work 1]"
    and e: "executes (trace (final (Render_upto 7 (ok_frame 0) (after_frames [ok_frame 1]))))
      = [0, 1]"
    and c: "fence_completed (final (Render_upto 7 (ok_frame 0) (after_frames [ok_frame 1]))) = 0"
    unfolding after_frames_def started_def Render_upto_def
    by (simp_all add: render_eval run.simps executes_def)
  have b: "busy (final (Render_upto 7 (ok_frame 0) (after_frames [ok_frame 1]))) = {0, 1}"
    unfolding busy_def q by (auto simp add: works_def)
  show ?thesis
    unfolding b using e c by (simp add: FrameCount_def)
qed

section \<open>The calls of a frame\<close>

lemma run_stops:
  assumes "\<not> returns (run g k fs s)" and "P k s"
    and "\<And>j t t'. j < length fs \<Longrightarrow> P (k + j) t \<Longrightarrow> (fs ! j) (gpu_run (g (k + j)) t) = Returns t'
            \<Longrightarrow> P (Suc (k + j)) t'"
  shows "\<exists>j t. j < length fs \<and> P (k + j) t \<and> (fs ! j) (gpu_run (g (k + j)) t) = run g k fs s"
  using assms
proof (induction fs arbitrary: k s)
  case Nil
  then show ?case by simp
next
  case (Cons f fs)
  show ?case
  proof (cases "f (gpu_run (g k) s)")
    case (Returns s1)
    then have r: "run g k (f # fs) s = run g (Suc k) fs s1" by simp
    have p1: "P (Suc k) s1"
      using Cons.prems(3) [of 0 s s1] Cons.prems(2) Returns by simp
    have "\<exists>j t. j < length fs \<and> P (Suc k + j) t
        \<and> (fs ! j) (gpu_run (g (Suc k + j)) t) = run g (Suc k) fs s1"
    proof (rule Cons.IH [OF _ p1])
      show "\<not> returns (run g (Suc k) fs s1)" using Cons.prems(1) r by simp
    next
      fix j t t'
      assume "j < length fs" "P (Suc k + j) t" "(fs ! j) (gpu_run (g (Suc k + j)) t) = Returns t'"
      then show "P (Suc (Suc k + j)) t'"
        using Cons.prems(3) [of "Suc j" t t'] by simp
    qed
    then obtain j t where "j < length fs" "P (Suc k + j) t"
      "(fs ! j) (gpu_run (g (Suc k + j)) t) = run g (Suc k) fs s1" by blast
    then show ?thesis using r by (intro exI [of _ "Suc j"] exI [of _ t]) simp
  next
    case (Throws x s1)
    then show ?thesis using Cons.prems(2) by (intro exI [of _ 0] exI [of _ s]) simp
  next
    case (Blocks s1)
    then show ?thesis using Cons.prems(2) by (intro exI [of _ 0] exI [of _ s]) simp
  qed
qed

lemmas step_all = checked_def ThrowIfFailed_def reset_list_def close_list_def signal_def
  wait_if_needed_def block_on_event_def handshake_def barrier_def clear_def plain_def
  execute_def take_fence_def increment_def read_index_def log_def

lemma abort_prefix:
  assumes "j < 13" and "shape e s j t" and "\<not> returns ((Render_steps e ! j) (gpu_run n t))"
  shows "\<exists>c rest. trace s @ frame_calls (m_frameIndex s) (m_fenceValue s) c (next_index e)
           = trace (final ((Render_steps e ! j) (gpu_run n t))) @ rest"
  using assms(1)
proof (cases rule: below_13)
  case 12
  let ?u = "gpu_run n t"
  from assms(2) have tr: "trace t = trace s @ first_calls (m_frameIndex s) (m_fenceValue s)"
    and f: "fence t = m_fenceValue s"
    by (simp_all add: shape_def 12 made_def first_calls_def)
  show ?thesis
    using assms(3) tr f
    apply (intro exI [of _ "fence_completed ?u"])
    apply (auto simp add: 12 Render_steps_def step_all frame_calls_def split: if_splits option.splits)
    done
qed (insert assms(2,3), auto simp add: Render_steps_def step_all shape_def made_def
      frame_calls_def first_calls_def split: if_splits)

text \<open>
  Claim C5. The calls of one \<^verbatim>\<open>Render\<close> are, in this order: reset of the allocator, reset
  (reopening) of the command list, the barrier from present state to render-target state on
  the current buffer, the clear of that buffer, the barrier back to present state, the close
  of the list, its submission, the present, the fence signal, the read of the fence followed
  (only when the value read is below the one signalled) by the wait, and last the query of
  the current buffer index. A call of \<^verbatim>\<open>Render\<close> that returns has made exactly these calls
  (\<open>rest = []\<close>); one that ends in an exception has made a first part of them.
\<close>

theorem Render_call_order:
  "(\<exists>c rest. trace s
        @ [AllocatorReset, ListReset,
           ResourceBarrier (m_frameIndex s) PRESENT RENDER_TARGET,
           ClearRenderTargetView (m_frameIndex s),
           ResourceBarrier (m_frameIndex s) RENDER_TARGET PRESENT,
           ListClose,
           ExecuteCommandLists (m_frameIndex s),
           SwapChainPresent,
           Signal (m_fenceValue s),
           GetCompletedValue c]
        @ (if c < m_fenceValue s
           then [SetEventOnCompletion (m_fenceValue s), WaitForSingleObject] else [])
        @ [GetCurrentBackBufferIndex (next_index e)]
      = trace (final (Render e s)) @ rest
      \<and> (returns (Render e s) \<longrightarrow> rest = []))"
proof (cases "returns (Render e s)")
  case True
  then obtain s' where r: "Render e s = Returns s'"
    by (cases "Render e s") simp_all
  from r obtain c where
    "trace s' = trace s @ frame_calls (m_frameIndex s) (m_fenceValue s) c (next_index e)"
    by (rule Render_trace)
  then show ?thesis
    using r by (intro exI [of _ c] exI [of _ "[]"])
      (simp add: frame_calls_def first_calls_def handshake_def)
next
  case False
  then have "\<not> returns (run (gpu_steps e) 0 (Render_steps e) s)"
    by (simp add: Render_def)
  from run_stops [where P = "shape e s", OF this shape_start]
  obtain j t where j: "j < length (Render_steps e)" and sh: "shape e s (0 + j) t"
    and st: "(Render_steps e ! j) (gpu_run (gpu_steps e (0 + j)) t)
        = run (gpu_steps e) 0 (Render_steps e) s"
    using shape_step by (auto simp add: length_Render_steps)
  have "\<not> returns ((Render_steps e ! j) (gpu_run (gpu_steps e j) t))"
    using st False by (simp add: Render_def)
  from abort_prefix [OF _ _ this, of s] j sh
  obtain c rest where
    "trace s @ frame_calls (m_frameIndex s) (m_fenceValue s) c (next_index e)
       = trace (final ((Render_steps e ! j) (gpu_run (gpu_steps e j) t))) @ rest"
    by (auto simp add: length_Render_steps)
  then show ?thesis
    using st False by (intro exI [of _ c] exI [of _ rest])
      (simp add: frame_calls_def first_calls_def handshake_def Render_def)
qed

theorem Render_call_order_witness:
  "returns (Render (ok_frame 0) (after_frames [ok_frame 1]))
   \<and> (\<exists>c. trace (final (Render (ok_frame 0) (after_frames [ok_frame 1])))
     = trace (after_frames [ok_frame 1])
        @ [AllocatorReset, ListReset,
           ResourceBarrier 1 PRESENT RENDER_TARGET,
           ClearRenderTargetView 1,
           ResourceBarrier 1 RENDER_TARGET PRESENT,
           ListClose,
           ExecuteCommandLists 1,
           SwapChainPresent,
           Signal 1,
           GetCompletedValue c]
        @ (if c < 1 then [SetEventOnCompletion 1, WaitForSingleObject] else [])
        @ [GetCurrentBackBufferIndex 0])"
proof -
  have m: "m_frameIndex (after_frames [ok_frame 1]) = 1"
    "m_fenceValue (after_frames [ok_frame 1]) = 1"
    unfolding after_frames_def started_def by (simp_all add: render_eval)
  have n: "next_index (ok_frame 0) = 0"
    by (simp add: ok_frame_def)
  have r: "returns (Render (ok_frame 0) (after_frames [ok_frame 1]))"
    by (simp only: second_frame returns.simps)
  from Render_call_order [of "after_frames [ok_frame 1]" "ok_frame 0"]
  obtain c rest where eq: "trace (after_frames [ok_frame 1])
        @ [AllocatorReset, ListReset,
           ResourceBarrier 1 PRESENT RENDER_TARGET,
           ClearRenderTargetView 1,
           ResourceBarrier 1 RENDER_TARGET PRESENT,
           ListClose,
           ExecuteCommandLists 1,
           SwapChainPresent,
           Signal 1,
           GetCompletedValue c]
        @ (if c < 1 then [SetEventOnCompletion 1, WaitForSingleObject] else [])
        @ [GetCurrentBackBufferIndex 0]
      = trace (final (Render (ok_frame 0) (after_frames [ok_frame 1]))) @ rest"
    and e: "returns (Render (ok_frame 0) (after_frames [ok_frame 1])) \<longrightarrow> rest = []"
    unfolding m n by blast
  from e r have "rest = []" by blast
  with eq have "trace (final (Render (ok_frame 0) (after_frames [ok_frame 1])))
      = trace (after_frames [ok_frame 1])
        @ [AllocatorReset, ListReset,
           ResourceBarrier 1 PRESENT RENDER_TARGET,
           ClearRenderTargetView 1,
           ResourceBarrier 1 RENDER_TARGET PRESENT,
           ListClose,
           ExecuteCommandLists 1,
           SwapChainPresent,
           Signal 1,
           GetCompletedValue c]
        @ (if c < 1 then [SetEventOnCompletion 1, WaitForSingleObject] else [])
        @ [GetCurrentBackBufferIndex 0]"
    by (simp only: append_Nil2)
  with r show ?thesis by blast
qed

section \<open>The wait ends\<close>

text \<open>
  A call of \<^verbatim>\<open>Render\<close> whose calls all succeed returns: when it waits, the signal it waits
  for is in the queue, so the wait ends. Hence any number of frames after a successful start
  run to their end.
\<close>

lemma await_last:
  assumes "q \<noteq> []" and "last q = SignalFence v"
  shows "await v q c \<noteq> None"
  using assms
proof (induction q arbitrary: c)
  case Nil
  then show ?case by simp
next
  case (Cons x q)
  show ?case
  proof (cases "q = []")
    case True
    then show ?thesis using Cons.prems by simp
  next
    case False
    then show ?thesis using Cons by simp
  qed
qed

lemma ready_gpu_run:
  assumes "ready v u" and "sorted (fence_completed u # pending (gpu_queue u))"
  shows "ready v (gpu_run n u)"
  using assms
proof (induction n arbitrary: u)
  case 0
  then show ?case by simp
next
  case (Suc n)
  show ?case
  proof (cases "gpu_queue u")
    case Nil
    then show ?thesis using Suc.prems by simp
  next
    case (Cons x q)
    let ?u = "u\<lparr>gpu_queue := q, fence_completed := complete x (fence_completed u)\<rparr>"
    have srt: "sorted (fence_completed ?u # pending (gpu_queue ?u))"
      using Suc.prems(2) Cons by (cases x) auto
    have "ready v ?u"
    proof (cases "v \<le> fence_completed u")
      case True
      then show ?thesis
        using Suc.prems(2) Cons by (cases x) (auto simp add: ready_def)
    next
      case False
      then show ?thesis
        using Suc.prems(1) Cons by (cases "q = []") (auto simp add: ready_def)
    qed
    then show ?thesis using Cons Suc.IH [OF _ srt] by simp
  qed
qed

lemma sync_sorted:
  assumes "sync k t"
  shows "sorted (fence_completed t # pending (gpu_queue t))"
  using assms unfolding sync_def protocol_def by blast

lemma going_ready:
  assumes "going k t" and "k = 10 \<or> k = 11"
  shows "ready (fence t) (gpu_run n t)"
proof -
  have "ready (fence t) t" and "sync k t"
    using assms by (simp_all add: going_def)
  then show ?thesis
    using ready_gpu_run sync_sorted by blast
qed

lemma going_step:
  assumes "j < 13" and "going j t" and "(Render_steps e ! j) (gpu_run n t) = Returns t'"
  shows "going (Suc j) t'"
proof -
  have s: "sync (Suc j) t'"
    using sync_step [OF assms(1) _ assms(3)] assms(2) by (simp add: going_def)
  have r: "ready (fence t') t'" if "Suc j = 10 \<or> Suc j = 11"
  proof (cases "j = 9")
    case True
    then show ?thesis
      using assms(3) by (auto simp add: Render_steps_def step_Returns ready_def)
  next
    case False
    then have j: "j = 10" using that by simp
    have "ready (fence t) (gpu_run n t)"
      using going_ready [OF assms(2)] j by simp
    then show ?thesis
      using assms(3) j by (auto simp add: Render_steps_def step_Returns ready_def)
  qed
  show ?thesis using s r by (auto simp add: going_def)
qed

lemma going_returns:
  assumes "j < 13" and "going j t" and "all_succeed e"
  shows "returns ((Render_steps e ! j) (gpu_run n t))"
  using assms(1)
proof (cases rule: below_13)
  case 12
  let ?u = "gpu_run n t"
  have "ready (fence t) ?u"
    using going_ready [OF assms(2)] 12 by simp
  then have a: "fence_completed ?u < fence ?u \<Longrightarrow>
      await (fence ?u) (gpu_queue ?u) (fence_completed ?u) \<noteq> None"
    using await_last [of "gpu_queue ?u" "fence ?u" "fence_completed ?u"]
    by (auto simp add: ready_def)
  have "returns (wait_if_needed (hr_SetEventOnCompletion e) ?u)"
  proof (cases "fence_completed ?u < fence ?u")
    case True
    with a obtain q c where "await (fence ?u) (gpu_queue ?u) (fence_completed ?u) = Some (q, c)"
      by auto
    then show ?thesis
      using True assms(3)
      by (simp add: wait_if_needed_def block_on_event_def checked_def ThrowIfFailed_def
          all_succeed_def log_def)
  next
    case False
    then show ?thesis by (simp add: wait_if_needed_def)
  qed
  then show ?thesis
    using 12 by (simp add: Render_steps_def)
qed (insert assms(3), simp_all add: Render_steps_def all_succeed_def step_all)

lemma Render_returns:
  assumes "sync 0 s" and "all_succeed e"
  shows "returns (Render e s)"
proof (rule ccontr)
  assume n: "\<not> returns (Render e s)"
  have "\<exists>j t. j < length (Render_steps e) \<and> going (0 + j) t
      \<and> (Render_steps e ! j) (gpu_run (gpu_steps e (0 + j)) t)
          = run (gpu_steps e) 0 (Render_steps e) s"
  proof (rule run_stops [where P = going])
    show "\<not> returns (run (gpu_steps e) 0 (Render_steps e) s)"
      using n by (simp add: Render_def)
    show "going 0 s"
      using assms(1) by (simp add: going_def)
  next
    fix j t t'
    assume "j < length (Render_steps e)" "going (0 + j) t"
      "(Render_steps e ! j) (gpu_run (gpu_steps e (0 + j)) t) = Returns t'"
    then show "going (Suc (0 + j)) t'"
      using going_step [of j t e "gpu_steps e j" t'] by (simp add: length_Render_steps)
  qed
  then obtain j t where j: "j < 13" and g: "going j t"
    and "(Render_steps e ! j) (gpu_run (gpu_steps e j) t) = Render e s"
    by (auto simp add: length_Render_steps Render_def)
  then show False
    using going_returns [OF j g assms(2), of "gpu_steps e j"] n by simp
qed

lemma frames_return:
  assumes "App e0 = Returns s0" and "\<forall>e \<in> set es. all_succeed e"
  shows "returns (ticks es s0)"
proof -
  have "sync 0 s \<Longrightarrow> \<forall>e \<in> set es. all_succeed e \<Longrightarrow> returns (ticks es s)" for s
  proof (induction es arbitrary: s)
    case Nil
    then show ?case by simp
  next
    case (Cons e es)
    then have "returns (Render e s)" by (simp add: Render_returns)
    then obtain s1 where r: "Render e s = Returns s1"
      by (cases "Render e s") simp_all
    then show ?case
      using Cons sync_Render [OF Cons.prems(1) r] by simp
  qed
  then show ?thesis using sync_App [OF assms(1)] assms(2) by blast
qed

section \<open>The fence handshake of a frame\<close>

lemma run_append:
  "run g k (fs @ hs) s =
     (case run g k fs s of Returns t \<Rightarrow> run g (k + length fs) hs t | other \<Rightarrow> other)"
  by (induction fs arbitrary: k s) (auto split: outcome.splits)

lemma Render_split:
  assumes "Render e s = Returns s'"
  obtains t where "Render_upto 11 e s = Returns t"
    and "trace s' = trace t
           @ handshake (fence t) (fence_completed (gpu_run (gpu_steps e 11) t))
           @ [GetCurrentBackBufferIndex (next_index e)]"
proof -
  have sp: "Render_steps e = take 11 (Render_steps e)
      @ [wait_if_needed (hr_SetEventOnCompletion e), read_index (next_index e)]"
    by (simp add: Render_steps_def)
  have "Render e s = (case Render_upto 11 e s of
       Returns t \<Rightarrow> run (gpu_steps e) 11
         [wait_if_needed (hr_SetEventOnCompletion e), read_index (next_index e)] t
     | other \<Rightarrow> other)"
    unfolding Render_def Render_upto_def
    by (subst sp, subst run_append) (simp add: length_Render_steps cong: outcome.case_cong)
  with assms obtain t where t: "Render_upto 11 e s = Returns t"
    and r: "run (gpu_steps e) 11
         [wait_if_needed (hr_SetEventOnCompletion e), read_index (next_index e)] t = Returns s'"
    by (auto split: outcome.splits)
  from r obtain w where
    w: "wait_if_needed (hr_SetEventOnCompletion e) (gpu_run (gpu_steps e 11) t) = Returns w"
    and x: "read_index (next_index e) (gpu_run (gpu_steps e 12) w) = Returns s'"
    by (auto split: outcome.splits)
  have "trace w = trace t @ handshake (fence t) (fence_completed (gpu_run (gpu_steps e 11) t))"
    using w by (auto simp add: wait_if_needed_Returns split: if_splits)
  then have "trace s' = trace t
           @ handshake (fence t) (fence_completed (gpu_run (gpu_steps e 11) t))
           @ [GetCurrentBackBufferIndex (next_index e)]"
    using x by (auto simp add: read_index_def log_def)
  with t show ?thesis by (rule that)
qed

text \<open>
  Claim C2, as the code has it. Frames are numbered from 0. The call of \<^verbatim>\<open>Render\<close> for
  frame \<open>v\<close> signals the value \<open>v\<close> and makes its fence handshake on that same value, not on
  the value of an earlier frame: the fence is read once, as \<open>c\<close>, and the thread waits, for
  \<open>v\<close>, exactly when \<open>c < v\<close>. When the call returns the fence has reached \<open>v\<close>, and from the
  second frame on (\<open>1 \<le> v\<close>) the queue is empty: no submitted frame is left for the queue
  to run beside the next recording.
\<close>

theorem wait_targets_own_signal:
  assumes "App e0 = Returns s0" and "ticks es s0 = Returns s" and "Render e s = Returns s'"
  shows "\<exists>t. Render_upto 11 e s = Returns t \<and>
     (let c = fence_completed (gpu_run (gpu_steps e 11) t);
          v = length es;
          calls = drop (length (trace s)) (trace s')
      in signals calls = [v]
       \<and> polls calls = [c]
       \<and> waits calls = (if c < v then [v] else [])
       \<and> (WaitForSingleObject \<in> set calls \<longleftrightarrow> c < v)
       \<and> v \<le> fence_completed s'
       \<and> (1 \<le> v \<longrightarrow> gpu_queue s' = []))"
proof -
  have s0: "sync 0 s0" and z: "m_fenceValue s0 = 0"
    using sync_App [OF assms(1)] App_Returns [OF assms(1)] by simp_all
  have m: "m_fenceValue s = length es" and y: "sync 0 s"
    using sync_ticks [OF s0 assms(2)] z by simp_all
  have ts: "tight 0 s"
    using tight_ticks [OF tight_App [OF assms(1)] assms(2)] .
  have ts': "tight 0 s'"
    using tight_Render [OF ts assms(3)] .
  have m': "m_fenceValue s' = Suc (length es)"
    using shape_Render [OF assms(3)] m by (simp add: shape_def)
  have r: "length es \<le> fence_completed s'"
    using ts' m' by (simp add: tight_def sync_def protocol_def issued_def slack_def)
  have q: "gpu_queue s' = []" if "1 \<le> length es"
    using queue_empty [OF ts', of 0] m' that by simp
  from assms(3) obtain t where t: "Render_upto 11 e s = Returns t"
    and tr: "trace s' = trace t
           @ handshake (fence t) (fence_completed (gpu_run (gpu_steps e 11) t))
           @ [GetCurrentBackBufferIndex (next_index e)]"
    by (rule Render_split)
  have "shape e s 11 t"
    using shape_upto [OF t] by simp
  then have "trace t = trace s @ first_calls (m_frameIndex s) (length es)" and "fence t = length es"
    using m by (simp_all add: shape_def made_def first_calls_def)
  then have "drop (length (trace s)) (trace s') = first_calls (m_frameIndex s) (length es)
      @ handshake (length es) (fence_completed (gpu_run (gpu_steps e 11) t))
      @ [GetCurrentBackBufferIndex (next_index e)]"
    using tr by simp
  then show ?thesis
    using t r q
    by (intro exI [of _ t])
      (auto simp add: Let_def first_calls_def handshake_def signals_def polls_def waits_def)
qed

theorem wait_targets_own_signal_witness:
  "App ok_setup = Returns started
   \<and> ticks [ok_frame 1] started = Returns (after_frames [ok_frame 1])
   \<and> Render (ok_frame 0) (after_frames [ok_frame 1])
       = Returns (after_frames [ok_frame 1, ok_frame 0])
   \<and> signals (drop (length (trace (after_frames [ok_frame 1])))
        (trace (after_frames [ok_frame 1, ok_frame 0]))) = [1]
   \<and> polls (drop (length (trace (after_frames [ok_frame 1])))
        (trace (after_frames [ok_frame 1, ok_frame 0]))) = [0]
   \<and> waits (drop (length (trace (after_frames [ok_frame 1])))
        (trace (after_frames [ok_frame 1, ok_frame 0]))) = [1]
   \<and> 1 \<le> fence_completed (after_frames [ok_frame 1, ok_frame 0])
   \<and> gpu_queue (after_frames [ok_frame 1, ok_frame 0]) = []"
proof -
  from wait_targets_own_signal [OF started_eq one_frame second_frame]
  obtain t where t: "Render_upto 11 (ok_frame 0) (after_frames [ok_frame 1]) = Returns t"
    and l: "let c = fence_completed (gpu_run (gpu_steps (ok_frame 0) 11) t);
          v = length [ok_frame 1];
          calls = drop (length (trace (after_frames [ok_frame 1])))
                    (trace (after_frames [ok_frame 1, ok_frame 0]))
      in signals calls = [v]
       \<and> polls calls = [c]
       \<and> waits calls = (if c < v then [v] else [])
       \<and> (WaitForSingleObject \<in> set calls \<longleftrightarrow> c < v)
       \<and> v \<le> fence_completed (after_frames [ok_frame 1, ok_frame 0])
       \<and> (1 \<le> v \<longrightarrow> gpu_queue (after_frames [ok_frame 1, ok_frame 0]) = [])"
    by blast
  have "final (Render_upto 11 (ok_frame 0) (after_frames [ok_frame 1])) = t"
    using t by (simp only: final.simps)
  moreover have "fence_completed (gpu_run (gpu_steps (ok_frame 0) 11)
      (final (Render_upto 11 (ok_frame 0) (after_frames [ok_frame 1])))) = 0"
    unfolding after_frames_def started_def Render_upto_def
    by (simp add: render_eval run.simps)
  ultimately have c: "fence_completed (gpu_run (gpu_steps (ok_frame 0) 11) t) = 0"
    by simp
  have v: "length [ok_frame 1] = 1"
    by simp
  from l have "signals (drop (length (trace (after_frames [ok_frame 1])))
          (trace (after_frames [ok_frame 1, ok_frame 0]))) = [1]
     \<and> polls (drop (length (trace (after_frames [ok_frame 1])))
          (trace (after_frames [ok_frame 1, ok_frame 0]))) = [0]
     \<and> waits (drop (length (trace (after_frames [ok_frame 1])))
          (trace (after_frames [ok_frame 1, ok_frame 0]))) = [1]
     \<and> 1 \<le> fence_completed (after_frames [ok_frame 1, ok_frame 0])
     \<and> gpu_queue (after_frames [ok_frame 1, ok_frame 0]) = []"
    unfolding Let_def c v by simp
  then show ?thesis
    using started_eq one_frame second_frame by blast
qed

text \<open>
  Claim C2 as stated fails: the first frame signalled 0, and the second frame waits for 1,
  the value it signalled itself, not for the value of the frame before; when it returns no
  submitted work is left in the queue.
\<close>

theorem lagged_wait_counterexample:
  "signals (trace (after_frames [ok_frame 1])) = [0]
   \<and> waits (drop (length (trace (after_frames [ok_frame 1])))
        (trace (after_frames [ok_frame 1, ok_frame 0]))) = [1]
   \<and> works (gpu_queue (after_frames [ok_frame 1, ok_frame 0])) = []"
  unfolding after_frames_def started_def
  by (simp add: render_eval signals_def waits_def works_def)

section \<open>The current buffer index\<close>

lemma reported_append [simp]: "reported (xs @ ys) = reported xs @ reported ys"
  by (simp add: reported_def)

lemma reported_first_calls: "reported (take m (first_calls i v)) = []"
proof -
  have "\<forall>c \<in> set (first_calls i v). (case c of GetCurrentBackBufferIndex i \<Rightarrow> [i] | _ \<Rightarrow> []) = []"
    by (simp add: first_calls_def)
  then have "\<forall>c \<in> set (take m (first_calls i v)).
      (case c of GetCurrentBackBufferIndex i \<Rightarrow> [i] | _ \<Rightarrow> []) = []"
    using set_take_subset by fastforce
  then show ?thesis by (simp add: reported_def)
qed

lemma reported_first: "reported (first_calls i v) = []"
  by (simp add: first_calls_def reported_def)

lemma reported_handshake: "reported (handshake v c) = []"
  by (auto simp add: reported_def handshake_def)

lemma reported_upto:
  assumes "shape e s k t" and "k < 13"
  shows "reported (trace t) = reported (trace s) \<and> m_frameIndex t = m_frameIndex s"
proof (cases "k = 12")
  case True
  then show ?thesis
    using assms(1) by (auto simp add: shape_def reported_handshake reported_first)
next
  case False
  then have "k \<le> 11" using assms(2) by simp
  then show ?thesis
    using assms(1) by (simp add: shape_def reported_first_calls)
qed

lemma reported_Render:
  assumes "Render e s = Returns s'"
  shows "reported (trace s') = reported (trace s) @ [next_index e]
       \<and> m_frameIndex s' = next_index e
       \<and> last (trace s') = GetCurrentBackBufferIndex (next_index e)"
proof -
  from assms obtain c where
    "trace s' = trace s @ frame_calls (m_frameIndex s) (m_fenceValue s) c (next_index e)"
    by (rule Render_trace)
  then show ?thesis
    using shape_Render [OF assms]
    by (simp add: shape_def frame_calls_def reported_handshake reported_first)
      (simp add: reported_def)
qed

lemma reported_ticks:
  assumes "ticks es s = Returns s'"
  shows "reported (trace s') = reported (trace s) @ map next_index es
       \<and> m_frameIndex s' = last (m_frameIndex s # map next_index es)
       \<and> (list_closed s \<longrightarrow> list_closed s')"
  using assms
proof (induction es arbitrary: s)
  case Nil
  then show ?case by simp
next
  case (Cons e es)
  from Cons.prems obtain s1 where r: "Render e s = Returns s1" and t: "ticks es s1 = Returns s'"
    by (auto split: outcome.splits)
  have "list_closed s1" using shape_Render [OF r] by (simp add: shape_def)
  then show ?case
    using reported_Render [OF r] Cons.IH [OF t] by simp
qed

text \<open>
  Claim C6. After a successful start and the frames \<open>es\<close>, the indices the swap chain has
  reported are the one queried in the constructor followed by one per frame, and
  \<^verbatim>\<open>m_frameIndex\<close> is the last of them. During the next call of \<^verbatim>\<open>Render\<close>, before its last
  statement, the member is not changed and the swap chain is not queried; a call that returns
  ends with the query, after the present, and stores what the swap chain reports, also
  when that is the index the member already held.
\<close>

theorem frame_index_follows_surface:
  assumes "App e0 = Returns s0" and "ticks es s0 = Returns s"
  shows "reported (trace s) = first_index e0 # map next_index es
       \<and> m_frameIndex s = last (reported (trace s))
       \<and> (\<forall>k e t. k < 13 \<longrightarrow> Render_upto k e s = Returns t \<longrightarrow>
             m_frameIndex t = m_frameIndex s \<and> reported (trace t) = reported (trace s))
       \<and> (\<forall>e s'. Render e s = Returns s' \<longrightarrow>
             m_frameIndex s' = next_index e
             \<and> reported (trace s') = reported (trace s) @ [next_index e]
             \<and> last (trace s') = GetCurrentBackBufferIndex (next_index e))"
proof -
  have a: "reported (trace s0) = [first_index e0]" "m_frameIndex s0 = first_index e0"
    using App_Returns [OF assms(1)] by simp_all
  have r: "reported (trace s) = first_index e0 # map next_index es"
    and m: "m_frameIndex s = last (first_index e0 # map next_index es)"
    using reported_ticks [OF assms(2)] a by simp_all
  have "m_frameIndex t = m_frameIndex s \<and> reported (trace t) = reported (trace s)"
    if "k < 13" "Render_upto k e s = Returns t" for k e t
    using reported_upto [OF shape_upto [OF that(2)]] that(1) by (simp add: min_def)
  moreover have "m_frameIndex s' = next_index e
             \<and> reported (trace s') = reported (trace s) @ [next_index e]
             \<and> last (trace s') = GetCurrentBackBufferIndex (next_index e)"
    if "Render e s = Returns s'" for e s'
    using reported_Render [OF that] by simp
  ultimately show ?thesis using r m by simp
qed

theorem frame_index_follows_surface_witness:
  "App ok_setup = Returns started
   \<and> ticks [ok_frame 1, ok_frame 0] started = Returns (after_frames [ok_frame 1, ok_frame 0])
   \<and> reported (trace (after_frames [ok_frame 1, ok_frame 0])) = [0, 1, 0]
   \<and> m_frameIndex (after_frames [ok_frame 1, ok_frame 0]) = 0
   \<and> (5::nat) < 13
   \<and> Render_upto 5 (ok_frame 1) (after_frames [ok_frame 1, ok_frame 0])
       = Returns (final (Render_upto 5 (ok_frame 1) (after_frames [ok_frame 1, ok_frame 0])))
   \<and> m_frameIndex (final (Render_upto 5 (ok_frame 1) (after_frames [ok_frame 1, ok_frame 0])))
       = 0
   \<and> Render (ok_frame 0) (after_frames [ok_frame 1, ok_frame 0])
       = Returns (after_frames [ok_frame 1, ok_frame 0, ok_frame 0])
   \<and> m_frameIndex (after_frames [ok_frame 1, ok_frame 0, ok_frame 0]) = 0"
proof -
  note T = frame_index_follows_surface [OF started_eq two_frames]
  from T have r: "reported (trace (after_frames [ok_frame 1, ok_frame 0])) = [0, 1, 0]"
    by (simp add: sample_answers)
  with T have m: "m_frameIndex (after_frames [ok_frame 1, ok_frame 0]) = 0"
    by simp
  have n: "(5::nat) < 13" by simp
  from T have A: "\<And>k e t. k < 13 \<Longrightarrow>
      Render_upto k e (after_frames [ok_frame 1, ok_frame 0]) = Returns t \<Longrightarrow>
      m_frameIndex t = m_frameIndex (after_frames [ok_frame 1, ok_frame 0])"
    by blast
  have "m_frameIndex (final (Render_upto 5 (ok_frame 1) (after_frames [ok_frame 1, ok_frame 0])))
      = m_frameIndex (after_frames [ok_frame 1, ok_frame 0])"
    using A [OF n five_statements] .
  with m have k: "m_frameIndex (final (Render_upto 5 (ok_frame 1)
      (after_frames [ok_frame 1, ok_frame 0]))) = 0"
    by simp
  from T same_index_frame
  have "m_frameIndex (after_frames [ok_frame 1, ok_frame 0, ok_frame 0]) = next_index (ok_frame 0)"
    by blast
  then have x: "m_frameIndex (after_frames [ok_frame 1, ok_frame 0, ok_frame 0]) = 0"
    by (simp add: sample_answers)
  show ?thesis
    using started_eq two_frames r m n five_statements k same_index_frame x by blast
qed

section \<open>The state of the command list\<close>

text \<open>
  Claim C10. The constructor closes the command list right after creating it, so the list is
  closed when the constructor returns; it is closed after every call of \<^verbatim>\<open>Render\<close> that
  returns; within a call it is open exactly when at least 2 and fewer than 6 statements have
  run, that is from the reset of the list to its close, hence closed again when it is
  submitted; and the state in which a call resets the list is one where the list is closed.
\<close>

theorem list_closed_outside_Render:
  assumes "App e0 = Returns s0" and "ticks es s0 = Returns s"
  shows "list_closed s0
       \<and> hd (after CreateCommandList (trace s0)) = ListClose
       \<and> list_closed s
       \<and> (\<forall>k e t. Render_upto k e s = Returns t \<longrightarrow> list_closed t = (k < 2 \<or> 6 \<le> k))
       \<and> (\<forall>e t. Render_upto 1 e s = Returns t \<longrightarrow> list_closed (gpu_run (gpu_steps e 1) t))"
proof -
  have c0: "list_closed s0"
    using App_Returns [OF assms(1)] by simp
  have h: "hd (after CreateCommandList (trace s0)) = ListClose"
    using assms(1) by (auto simp add: setup_defs after_def split: if_splits)
  have c: "list_closed s"
    using reported_ticks [OF assms(2)] c0 by simp
  have "list_closed t = (k < 2 \<or> 6 \<le> k)" if "Render_upto k e s = Returns t" for k e t
    using shape_upto [OF that] c by (auto simp add: shape_def min_def split: if_splits)
  moreover have "list_closed (gpu_run (gpu_steps e 1) t)" if "Render_upto 1 e s = Returns t" for e t
    using shape_upto [OF that] c by (simp add: shape_def)
  ultimately show ?thesis using c0 h c by blast
qed


theorem list_closed_outside_Render_witness:
  "App ok_setup = Returns started
   \<and> ticks [ok_frame 1, ok_frame 0] started = Returns (after_frames [ok_frame 1, ok_frame 0])
   \<and> list_closed started
   \<and> list_closed (after_frames [ok_frame 1, ok_frame 0])
   \<and> Render_upto 5 (ok_frame 1) (after_frames [ok_frame 1, ok_frame 0])
       = Returns (final (Render_upto 5 (ok_frame 1) (after_frames [ok_frame 1, ok_frame 0])))
   \<and> \<not> list_closed (final (Render_upto 5 (ok_frame 1) (after_frames [ok_frame 1, ok_frame 0])))
   \<and> Render_upto 1 (ok_frame 1) (after_frames [ok_frame 1, ok_frame 0])
       = Returns (final (Render_upto 1 (ok_frame 1) (after_frames [ok_frame 1, ok_frame 0])))
   \<and> list_closed (gpu_run (gpu_steps (ok_frame 1) 1)
         (final (Render_upto 1 (ok_frame 1) (after_frames [ok_frame 1, ok_frame 0]))))"
proof -
  note T = list_closed_outside_Render [OF started_eq two_frames]
  from T have a: "list_closed started" "list_closed (after_frames [ok_frame 1, ok_frame 0])"
    by blast+
  from T five_statements
  have "list_closed (final (Render_upto 5 (ok_frame 1) (after_frames [ok_frame 1, ok_frame 0])))
      = ((5::nat) < 2 \<or> (6::nat) \<le> 5)"
    by blast
  then have b: "\<not> list_closed (final (Render_upto 5 (ok_frame 1)
      (after_frames [ok_frame 1, ok_frame 0])))"
    by simp
  from T one_statement
  have c: "list_closed (gpu_run (gpu_steps (ok_frame 1) 1)
         (final (Render_upto 1 (ok_frame 1) (after_frames [ok_frame 1, ok_frame 0]))))"
    by blast
  show ?thesis
    using started_eq two_frames a b c five_statements one_statement by blast
qed

section \<open>Resize notifications\<close>

lemmas msg_defs = WM_CREATE_def WM_SIZE_def WM_PAINT_def WM_CLOSE_def WM_QUIT_def

text \<open>
  Claim C8, as the code has it. The window procedure has no case for \<^verbatim>\<open>WM_SIZE\<close>: a resize
  notification of any size, zero or positive, goes to \<^verbatim>\<open>DefWindowProcW\<close>; nothing else is
  called, no buffer is fetched again, no exception is raised. A paint request renders a
  frame, whatever the size of the drawable area: \<^verbatim>\<open>Render\<close> does not look at it.
\<close>

theorem resize_not_handled:
  "WindowProc e WM_SIZE wP lP s = Returns (log (DefWindowProcW WM_SIZE) s)
   \<and> rebuilds (trace (log (DefWindowProcW WM_SIZE) s)) = rebuilds (trace s)
   \<and> WindowProc e WM_PAINT wP lP s = Render e s"
  by (simp add: WindowProc_def msg_defs plain_def log_def rebuilds_def)

text \<open>
  Claim C8 as stated fails: a resize to 640 by 480 fetches no buffer, where the claim wants
  \<open>FrameCount\<close> buffers rebuilt; and after a resize to 0 by 0 a paint request still submits a
  frame, where the claim wants rendering skipped.
\<close>

theorem resize_counterexample:
  "length (rebuilds (drop (length (trace started))
       (trace (final (DispatchMessageW (size_msg 640 480) started))))) \<noteq> FrameCount
   \<and> executes (trace (final (DispatchMessageW (paint_msg 1)
         (final (DispatchMessageW (size_msg 0 0) started))))) = [0]"
proof -
  have "rebuilds (drop (length (trace started))
       (trace (final (DispatchMessageW (size_msg 640 480) started)))) = []"
    by (simp add: DispatchMessageW_def size_msg_def WindowProc_def msg_defs
      plain_def log_def rebuilds_def)
  moreover have "executes (trace (final (DispatchMessageW (paint_msg 1)
         (final (DispatchMessageW (size_msg 0 0) started))))) = [0]"
    unfolding started_def
    by (simp add: DispatchMessageW_def size_msg_def paint_msg_def WindowProc_def msg_defs
      plain_def executes_def render_eval)
  ultimately show ?thesis
    by (simp add: FrameCount_def)
qed

section \<open>Shutdown\<close>

lemma sync_log:
  assumes "signals [c] = []" and "executes [c] = []"
  shows "sync k (log c s) = sync k s"
  using assms
  by (simp add: sync_def protocol_def issued_def submitted_def log_def)

lemma tight_log:
  assumes "signals [c] = []" and "executes [c] = []"
  shows "tight k (log c s) = tight k s"
  using sync_log [OF assms, of k s]
  by (simp add: tight_def in_order_def issued_def log_def)

lemma WindowProc_cases:
  obtains "WindowProc e uMsg wP lP s = Render e s"
  | c where "WindowProc e uMsg wP lP s = Returns (log c s)" and "\<not> is_release c"
      and "signals [c] = []" and "executes [c] = []"
proof -
  consider "uMsg = WM_CLOSE" | "uMsg \<noteq> WM_CLOSE" "uMsg = WM_CREATE"
    | "uMsg \<noteq> WM_CLOSE" "uMsg \<noteq> WM_CREATE" "uMsg = WM_PAINT"
    | "uMsg \<noteq> WM_CLOSE" "uMsg \<noteq> WM_CREATE" "uMsg \<noteq> WM_PAINT"
    by blast
  then show ?thesis
  proof cases
    case 1
    then show ?thesis
      using that(2) [of PostQuitMessage]
      by (simp add: WindowProc_def plain_def signals_def executes_def)
  next
    case 2
    then show ?thesis
      using that(2) [of SetWindowLongPtr]
      by (simp add: WindowProc_def plain_def signals_def executes_def)
  next
    case 3
    then show ?thesis
      using that(1) by (simp add: WindowProc_def)
  next
    case 4
    then show ?thesis
      using that(2) [of "DefWindowProcW uMsg"]
      by (simp add: WindowProc_def plain_def signals_def executes_def)
  qed
qed

lemma WindowProc_tight:
  assumes "tight 0 s" and "WindowProc e uMsg wP lP s = Returns s'"
  shows "tight 0 s'"
proof (cases rule: WindowProc_cases [of e uMsg wP lP s])
  case 1
  then show ?thesis using assms tight_Render by simp
next
  case (2 c)
  then show ?thesis using assms by (simp add: tight_log)
qed

lemma quiet_App:
  assumes "App e = Returns s"
  shows "quiet s"
  using assms
  by (auto simp add: setup_defs quiet_def split: if_splits)

lemma quiet_Render:
  assumes "quiet s" and "Render e s = Returns s'"
  shows "quiet s'"
proof -
  from assms(2) obtain c where
    "trace s' = trace s @ frame_calls (m_frameIndex s) (m_fenceValue s) c (next_index e)"
    by (rule Render_trace)
  then show ?thesis
    using assms(1) by (auto simp add: quiet_def frame_calls_def first_calls_def handshake_def)
qed

lemma WindowProc_quiet:
  assumes "quiet s" and "WindowProc e uMsg wP lP s = Returns s'"
  shows "quiet s'"
proof (cases rule: WindowProc_cases [of e uMsg wP lP s])
  case 1
  then show ?thesis using assms quiet_Render by simp
next
  case (2 c)
  then show ?thesis using assms by (auto simp add: quiet_def log_def)
qed

lemma pump_Returns:
  assumes "tight 0 s" and "quiet s" and "pump ms s = Returns s'"
  shows "tight 0 s' \<and> quiet s'"
  using assms
proof (induction ms arbitrary: s)
  case Nil
  then show ?case by simp
next
  case (Cons m ms)
  from Cons.prems(3) obtain s1 where d: "DispatchMessageW m s = Returns s1"
    and r: "(if message m = WM_QUIT then Returns s1 else pump ms s1) = Returns s'"
    by (auto split: outcome.splits)
  have "tight 0 s1 \<and> quiet s1"
    using d Cons.prems(1,2) WindowProc_tight WindowProc_quiet
    by (auto simp add: DispatchMessageW_def split: if_splits)
  then show ?case
    using r Cons.IH by (auto split: if_splits)
qed

lemma two_frames_then_close:
  "wWinMain ok_setup [paint_msg 1, paint_msg 0, close_msg, quit_msg]
     = Exit 0 (ended (wWinMain ok_setup [paint_msg 1, paint_msg 0, close_msg, quit_msg]))"
  by (simp add: wWinMain_def DispatchMessageW_def paint_msg_def close_msg_def quit_msg_def
      WindowProc_def msg_defs plain_def render_eval App_dtor_def)

lemma two_frames_then_close_pump:
  "executes (trace (final (pump [paint_msg 1, paint_msg 0, close_msg, quit_msg] started))) = [0, 1]
   \<and> waits (trace (final (pump [paint_msg 1, paint_msg 0, close_msg, quit_msg] started))) = [1]"
  unfolding started_def
  by (simp add: DispatchMessageW_def paint_msg_def close_msg_def quit_msg_def
      WindowProc_def msg_defs plain_def render_eval executes_def waits_def)

text \<open>
  Claim C7, as the code has it. On \<^verbatim>\<open>WM_CLOSE\<close> the window procedure posts the quit message
  and makes no other call: no drain is started. When \<^verbatim>\<open>wWinMain\<close> returns after the loop,
  it returns 0 and the destructor of \<^verbatim>\<open>App\<close> gives the handles back; the calls of the
  destructor are releases only, the fence is neither read nor waited for there. Before the
  destructor the only release is that of the constructor's local swap-chain pointer. When
  the destructor runs, every fence value signalled has been reached by the fence, and if two
  or more frames were submitted the queue is empty, however far it has run since.
\<close>

theorem shutdown_without_drain:
  "WindowProc e' WM_CLOSE wP lP t = Returns (log PostQuitMessage t)
   \<and> (wWinMain e ms = Exit r s' \<longrightarrow>
        (\<exists>s0 s. App e = Returns s0 \<and> pump ms s0 = Returns s \<and> r = 0 \<and> s' = App_dtor s
           \<and> filter is_release (trace s) = [Release h_localSwapChain]
           \<and> filter is_fence_wait (drop (length (trace s)) (trace s')) = []
           \<and> (\<forall>c \<in> set (drop (length (trace s)) (trace s')). is_release c)
           \<and> (\<forall>v \<in> set (signals (trace s)). \<forall>j. v \<le> fence_completed (gpu_run j s))
           \<and> (2 \<le> length (executes (trace s)) \<longrightarrow> (\<forall>j. gpu_queue (gpu_run j s) = []))))"
proof -
  have a: "WindowProc e' WM_CLOSE wP lP t = Returns (log PostQuitMessage t)"
    by (simp add: WindowProc_def plain_def)
  have b: "\<exists>s0 s. App e = Returns s0 \<and> pump ms s0 = Returns s \<and> r = 0 \<and> s' = App_dtor s
           \<and> filter is_release (trace s) = [Release h_localSwapChain]
           \<and> filter is_fence_wait (drop (length (trace s)) (trace s')) = []
           \<and> (\<forall>c \<in> set (drop (length (trace s)) (trace s')). is_release c)
           \<and> (\<forall>v \<in> set (signals (trace s)). \<forall>j. v \<le> fence_completed (gpu_run j s))
           \<and> (2 \<le> length (executes (trace s)) \<longrightarrow> (\<forall>j. gpu_queue (gpu_run j s) = []))"
    if w: "wWinMain e ms = Exit r s'"
  proof -
    from w obtain s0 s where s0: "App e = Returns s0" and s: "pump ms s0 = Returns s"
      and r: "r = 0" and s': "s' = App_dtor s"
      by (auto simp add: wWinMain_def split: outcome.splits)
    have i: "tight 0 s" and q: "quiet s"
      using pump_Returns [OF tight_App [OF s0] quiet_App [OF s0] s] by simp_all
    then have y: "sync 0 s" by (simp add: tight_def)
    have "v \<le> fence_completed (gpu_run j s)" if "v \<in> set (signals (trace s))" for v j
      using sync_gpu_run [OF y, of j] that
      by (auto simp add: sync_def protocol_def issued_def slack_def)
    moreover have "filter is_fence_wait (drop (length (trace s)) (trace s')) = []"
      and "\<forall>c \<in> set (drop (length (trace s)) (trace s')). is_release c"
      unfolding s' by (simp_all add: App_dtor_def frames_upt)
    moreover have "length (executes (trace s)) = m_fenceValue s"
      using y by (simp add: sync_def protocol_def issued_def submitted_def)
    then have "gpu_queue (gpu_run j s) = []" if "2 \<le> length (executes (trace s))" for j
      using queue_empty [OF i] that by simp
    ultimately show ?thesis
      using s0 s r s' q by (auto simp add: quiet_def)
  qed
  from a b show ?thesis by blast
qed

theorem shutdown_without_drain_witness:
  "wWinMain ok_setup [paint_msg 1, paint_msg 0, close_msg, quit_msg]
     = Exit 0 (ended (wWinMain ok_setup [paint_msg 1, paint_msg 0, close_msg, quit_msg]))
   \<and> (\<exists>s. pump [paint_msg 1, paint_msg 0, close_msg, quit_msg] started = Returns s
         \<and> ended (wWinMain ok_setup [paint_msg 1, paint_msg 0, close_msg, quit_msg]) = App_dtor s
         \<and> filter is_release (trace s) = [Release h_localSwapChain]
         \<and> 2 \<le> length (executes (trace s))
         \<and> waits (trace s) = [1]
         \<and> gpu_queue (gpu_run 0 s) = [])"
proof -
  from shutdown_without_drain [of _ _ _ _ ok_setup
      "[paint_msg 1, paint_msg 0, close_msg, quit_msg]" 0
      "ended (wWinMain ok_setup [paint_msg 1, paint_msg 0, close_msg, quit_msg])"]
    two_frames_then_close
  obtain s0 s where "App ok_setup = Returns s0"
    and p: "pump [paint_msg 1, paint_msg 0, close_msg, quit_msg] s0 = Returns s"
    and d: "ended (wWinMain ok_setup [paint_msg 1, paint_msg 0, close_msg, quit_msg]) = App_dtor s"
    and f: "filter is_release (trace s) = [Release h_localSwapChain]"
    and q: "2 \<le> length (executes (trace s)) \<longrightarrow> (\<forall>j. gpu_queue (gpu_run j s) = [])"
    by blast
  then have s0: "s0 = started"
    using started_eq by simp
  with p have "final (pump [paint_msg 1, paint_msg 0, close_msg, quit_msg] started) = s"
    by (simp only: final.simps)
  with two_frames_then_close_pump have e: "executes (trace s) = [0, 1]" and w: "waits (trace s) = [1]"
    by simp_all
  then have l: "2 \<le> length (executes (trace s))" by simp
  with q have "gpu_queue (gpu_run 0 s) = []" by blast
  then show ?thesis
    using two_frames_then_close p d f l w s0 by blast
qed

text \<open>
  Claim C7 as stated fails: after one frame and a close request, no call after the quit
  message reads the fence or waits for it, the device is released, and the queue still holds
  the work and the signal of the frame submitted last.
\<close>

theorem shutdown_counterexample:
  "filter is_fence_wait
       (after PostQuitMessage (trace (ended (wWinMain ok_setup [paint_msg 1, close_msg, quit_msg]))))
     = []
   \<and> Release h_device
       \<in> set (after PostQuitMessage
             (trace (ended (wWinMain ok_setup [paint_msg 1, close_msg, quit_msg]))))
   \<and> gpu_queue (ended (wWinMain ok_setup [paint_msg 1, close_msg, quit_msg]))
       = [Work 0, SignalFence 0]"
  by (simp add: wWinMain_def DispatchMessageW_def paint_msg_def close_msg_def quit_msg_def
      WindowProc_def msg_defs plain_def render_eval App_dtor_def after_def)

end
